theory Spec2Isabelle
  imports Complex_Main
begin

section \<open>Data model of \<^verbatim>\<open>seed-database.ts\<close>\<close>

text \<open>
  The type \<^verbatim>\<open>Item\<close> inferred from \<^verbatim>\<open>itemSchema\<close>. A JavaScript number that comes
  out of \<^verbatim>\<open>JSON.parse\<close> is a finite double, hence a rational; it is modelled as a
  \<^typ>\<open>real\<close>. The rendering of a number inside a template literal
  (\<^verbatim>\<open>Number::toString\<close>) is a parameter \<open>ts\<close> of the functions that need it.
\<close>

record address =
  street :: string
  city :: string
  state :: string
  postal_code :: string
  country :: string

record price_pair =
  full_price :: real
  sale_price :: real

record review =
  review_date :: string
  rating :: real
  comment :: string

record item =
  item_id :: string
  item_name :: string
  item_description :: string
  brand :: string
  manufacturer_address :: address
  prices :: price_pair
  categories :: "string list"
  user_reviews :: "review list"
  notes' :: string

text \<open>A parsed JSON value. An object is the list of its members, read with \<^const>\<open>map_of\<close>.\<close>

datatype json =
  JNull
  | JBool bool
  | JNum real
  | JStr string
  | JArr "json list"
  | JObj "(string \<times> json) list"

datatype error =
  Rejected string
  | ZodError
  | OutputParserException

subsection \<open>\<^verbatim>\<open>itemSchema\<close>: the Zod schema as a validator\<close>

definition bind_r :: "error + 'a \<Rightarrow> ('a \<Rightarrow> error + 'b) \<Rightarrow> error + 'b" where
  "bind_r m f = (case m of Inl e \<Rightarrow> Inl e | Inr v \<Rightarrow> f v)"

fun z_string :: "json \<Rightarrow> error + string" where
  "z_string (JStr s) = Inr s"
| "z_string _ = Inl ZodError"

fun z_number :: "json \<Rightarrow> error + real" where
  "z_number (JNum x) = Inr x"
| "z_number _ = Inl ZodError"

fun z_elems :: "(json \<Rightarrow> error + 'a) \<Rightarrow> json list \<Rightarrow> error + 'a list" where
  "z_elems p [] = Inr []"
| "z_elems p (j # js) =
     (case p j of
        Inl e \<Rightarrow> Inl e
      | Inr v \<Rightarrow> (case z_elems p js of Inl e \<Rightarrow> Inl e | Inr vs \<Rightarrow> Inr (v # vs)))"

fun z_array :: "(json \<Rightarrow> error + 'a) \<Rightarrow> json \<Rightarrow> error + 'a list" where
  "z_array p (JArr js) = z_elems p js"
| "z_array p _ = Inl ZodError"

text \<open>A key of a \<^verbatim>\<open>z.object\<close>: a missing member is \<^verbatim>\<open>undefined\<close>, which no schema
  used here accepts; members the schema does not name are dropped.\<close>

definition z_key :: "(json \<Rightarrow> error + 'a) \<Rightarrow> (string \<times> json) list \<Rightarrow> string \<Rightarrow> error + 'a" where
  "z_key p kvs k = (case map_of kvs k of None \<Rightarrow> Inl ZodError | Some v \<Rightarrow> p v)"

fun addressSchema :: "json \<Rightarrow> error + address" where
  "addressSchema (JObj kvs) =
     bind_r (z_key z_string kvs ''street'') (\<lambda>a.
     bind_r (z_key z_string kvs ''city'') (\<lambda>b.
     bind_r (z_key z_string kvs ''state'') (\<lambda>c.
     bind_r (z_key z_string kvs ''postal_code'') (\<lambda>d.
     bind_r (z_key z_string kvs ''country'') (\<lambda>e.
       Inr \<lparr>street = a, city = b, state = c, postal_code = d, country = e\<rparr>)))))"
| "addressSchema _ = Inl ZodError"

fun pricesSchema :: "json \<Rightarrow> error + price_pair" where
  "pricesSchema (JObj kvs) =
     bind_r (z_key z_number kvs ''full_price'') (\<lambda>f.
     bind_r (z_key z_number kvs ''sale_price'') (\<lambda>s.
       Inr \<lparr>full_price = f, sale_price = s\<rparr>))"
| "pricesSchema _ = Inl ZodError"

fun reviewSchema :: "json \<Rightarrow> error + review" where
  "reviewSchema (JObj kvs) =
     bind_r (z_key z_string kvs ''review_date'') (\<lambda>d.
     bind_r (z_key z_number kvs ''rating'') (\<lambda>r.
     bind_r (z_key z_string kvs ''comment'') (\<lambda>c.
       Inr \<lparr>review_date = d, rating = r, comment = c\<rparr>)))"
| "reviewSchema _ = Inl ZodError"

fun itemSchema :: "json \<Rightarrow> error + item" where
  "itemSchema (JObj kvs) =
     bind_r (z_key z_string kvs ''item_id'') (\<lambda>i.
     bind_r (z_key z_string kvs ''item_name'') (\<lambda>n.
     bind_r (z_key z_string kvs ''item_description'') (\<lambda>d.
     bind_r (z_key z_string kvs ''brand'') (\<lambda>b.
     bind_r (z_key addressSchema kvs ''manufacturer_address'') (\<lambda>a.
     bind_r (z_key pricesSchema kvs ''prices'') (\<lambda>p.
     bind_r (z_key (z_array z_string) kvs ''categories'') (\<lambda>c.
     bind_r (z_key (z_array reviewSchema) kvs ''user_reviews'') (\<lambda>r.
     bind_r (z_key z_string kvs ''notes'') (\<lambda>t.
       Inr \<lparr>item_id = i, item_name = n, item_description = d, brand = b,
            manufacturer_address = a, prices = p, categories = c, user_reviews = r,
            notes' = t\<rparr>)))))))))"
| "itemSchema _ = Inl ZodError"

text \<open>\<^verbatim>\<open>parser = StructuredOutputParser.fromZodSchema(z.array(itemSchema))\<close>: the text is
  turned into a JSON value by the library (the parameter \<open>json_of\<close>, \<open>None\<close> when that
  throws) and the value is validated against the array schema; every failure is
  reported as an \<^const>\<open>OutputParserException\<close>.\<close>

definition parser_parse :: "(string \<Rightarrow> json option) \<Rightarrow> string \<Rightarrow> error + item list" where
  "parser_parse json_of text =
     (case json_of text of
        None \<Rightarrow> Inl OutputParserException
      | Some j \<Rightarrow> (case z_array itemSchema j of
                    Inl e \<Rightarrow> Inl OutputParserException
                  | Inr its \<Rightarrow> Inr its))"

subsection \<open>\<^verbatim>\<open>createItemSummary\<close>\<close>

text \<open>\<^verbatim>\<open>Array.prototype.join\<close> on an array of strings.\<close>

fun join :: "string \<Rightarrow> string list \<Rightarrow> string" where
  "join sep [] = []"
| "join sep [x] = x"
| "join sep (x # y # ys) = x @ sep @ join sep (y # ys)"

definition createItemSummary :: "(real \<Rightarrow> string) \<Rightarrow> item \<Rightarrow> string" where
  "createItemSummary ts item =
     (let manufacturerDetails = ''Made in '' @ country (manufacturer_address item);
          categories = join '', '' (categories item);
          userReviews =
            join '' ''
              (map (\<lambda>review. ''Rated '' @ ts (rating review) @ '' on '' @ review_date review
                              @ '': '' @ comment review)
                 (user_reviews item));
          basicInfo = item_name item @ '' '' @ item_description item @ '' from the brand ''
                      @ brand item;
          price = ''At full price it costs: '' @ ts (full_price (prices item))
                  @ '' USD, On sale it costs: '' @ ts (sale_price (prices item)) @ '' USD'';
          notes = notes' item
      in basicInfo @ ''. Manufacturer: '' @ manufacturerDetails @ ''. Categories: ''
         @ categories @ ''. Reviews: '' @ userReviews @ ''. Price: '' @ price @ ''. Notes: ''
         @ notes)"

section \<open>The world the pipeline runs in\<close>

text \<open>
  The persisted unit written by \<^verbatim>\<open>MongoDBAtlasVectorSearch.fromDocuments\<close>: the record
  as metadata, the summary under \<^verbatim>\<open>textKey\<close> and the vector under \<^verbatim>\<open>embeddingKey\<close>.
\<close>

record stored_doc =
  metadata :: item
  embedding_text :: string
  embedding :: "real list"

text \<open>
  Every awaited call to MongoDB, to the chat model or to the embedding model. The two
  calls made by \<^verbatim>\<open>fromDocuments\<close> carry the position of the record in processing
  order, \<open>Embed\<close> also the text that is embedded.
\<close>

datatype ext_call =
  Connect | Ping | ListCollections | CreateCollection | DropIndexes | CreateSearchIndex
  | DeleteMany | Invoke | Embed nat string | Insert nat | Close

text \<open>The lines written with \<^verbatim>\<open>console.log\<close> and \<^verbatim>\<open>console.error\<close>, by what they
  report rather than by their text.\<close>

datatype log_msg =
  Connecting | Connected | Setting_up | Created_collection | Collection_present
  | Creating_index | Created_index | Index_failed error | Cleared | Generating
  | Generated nat | Processing_batch int int nat | Saved string | Completed
  | Seeding_error error

datatype event = Ext ext_call | Console log_msg | GC | Pause nat

text \<open>
  What the outside answers: for each call whether it is rejected (\<open>Some e\<close>) or what it
  returns. The answers to \<^const>\<open>Embed\<close> and \<^const>\<open>Insert\<close> may differ from one record
  to the next; \<open>gc_available\<close> is \<^verbatim>\<open>global.gc\<close> being defined.
\<close>

record env =
  connect_r :: "error option"
  ping_r :: "error option"
  listCollections_r :: "error option"
  createCollection_r :: "error option"
  dropIndexes_r :: "error option"
  createSearchIndex_r :: "error option"
  deleteMany_r :: "error option"
  invoke_r :: "error + string"
  json_of :: "string \<Rightarrow> json option"
  embed_r :: "nat \<Rightarrow> string \<Rightarrow> error + real list"
  insert_r :: "nat \<Rightarrow> error option"
  close_r :: "error option"
  gc_available :: bool

text \<open>
  The state: the \<^verbatim>\<open>items\<close> collection of \<^verbatim>\<open>inventory_database\<close> (whether it exists,
  whether it has the search index, its documents), the number of records handed to
  \<^verbatim>\<open>fromDocuments\<close> so far, and everything that happened, in order.
\<close>

record world =
  collection_exists :: bool
  vector_index :: bool
  documents :: "stored_doc list"
  seq :: nat
  trace :: "event list"

type_synonym 'a io = "world \<Rightarrow> (error + 'a) \<times> world"

definition emit :: "event \<Rightarrow> world \<Rightarrow> world" where
  "emit ev s = s\<lparr>trace := trace s @ [ev]\<rparr>"

definition console :: "log_msg \<Rightarrow> world \<Rightarrow> world" where
  "console m s = emit (Console m) s"

definition call :: "ext_call \<Rightarrow> error option \<Rightarrow> unit io" where
  "call c r s = ((case r of None \<Rightarrow> Inr () | Some e \<Rightarrow> Inl e), emit (Ext c) s)"

text \<open>\<^verbatim>\<open>await m; f\<close>: a rejected promise skips the rest.\<close>

definition then_io :: "'a io \<Rightarrow> ('a \<Rightarrow> 'b io) \<Rightarrow> 'b io" where
  "then_io m f s = (case m s of (Inl e, s') \<Rightarrow> (Inl e, s') | (Inr v, s') \<Rightarrow> f v s')"

section \<open>Provisioning and generation\<close>

definition setupDatabaseAndCollection :: "env \<Rightarrow> unit io" where
  "setupDatabaseAndCollection env s =
     then_io (call ListCollections (listCollections_r env))
       (\<lambda>_ s1.
          if \<not> collection_exists s1 then
            then_io (call CreateCollection (createCollection_r env))
              (\<lambda>_ s2. (Inr (), console Created_collection (s2\<lparr>collection_exists := True\<rparr>))) s1
          else (Inr (), console Collection_present s1))
       (console Setting_up s)"

definition createVectorSearchIndex :: "env \<Rightarrow> unit io" where
  "createVectorSearchIndex env s =
     (case then_io (call DropIndexes (dropIndexes_r env))
             (\<lambda>_ s1. then_io (call CreateSearchIndex (createSearchIndex_r env))
                        (\<lambda>_ s2. (Inr (), console Created_index (s2\<lparr>vector_index := True\<rparr>)))
                        (console Creating_index s1)) s of
        (Inl e, s') \<Rightarrow> (Inr (), console (Index_failed e) s')
      | (Inr u, s') \<Rightarrow> (Inr u, s'))"

definition generateSyntheticData :: "env \<Rightarrow> item list io" where
  "generateSyntheticData env s =
     then_io (\<lambda>s1. (invoke_r env, emit (Ext Invoke) s1))
       (\<lambda>content s2. (parser_parse (json_of env) content, s2))
       (console Generating s)"

section \<open>\<^verbatim>\<open>processBatch\<close>\<close>

definition forceGC :: "env \<Rightarrow> world \<Rightarrow> world" where
  "forceGC env s = (if gc_available env then emit GC s else s)"

text \<open>\<^verbatim>\<open>Array.prototype.slice(start, end)\<close> at integer arguments.\<close>

definition js_slice :: "'a list \<Rightarrow> int \<Rightarrow> int \<Rightarrow> 'a list" where
  "js_slice xs start fin =
     (let len = int (length xs);
          k = (if start < 0 then max (len + start) 0 else min start len);
          final = (if fin < 0 then max (len + fin) 0 else min fin len)
      in take (nat (final - k)) (drop (nat k) xs))"

text \<open>
  \<^verbatim>\<open>MongoDBAtlasVectorSearch.fromDocuments([record], embeddings, config)\<close>: the text is
  embedded, then one document holding text, vector and metadata is inserted. A rejected
  embedding leaves the collection as it was, and so does a rejected insertion.
\<close>

definition fromDocuments :: "env \<Rightarrow> string \<Rightarrow> item \<Rightarrow> unit io" where
  "fromDocuments env pageContent item s =
     (let n = seq s;
          s1 = emit (Ext (Embed n pageContent)) (s\<lparr>seq := Suc n\<rparr>)
      in case embed_r env n pageContent of
           Inl e \<Rightarrow> (Inl e, s1)
         | Inr v \<Rightarrow>
             (let s2 = emit (Ext (Insert n)) s1
              in case insert_r env n of
                   Some e \<Rightarrow> (Inl e, s2)
                 | None \<Rightarrow>
                     (Inr (), s2\<lparr>documents := documents s2 @
                        [\<lparr>metadata = item, embedding_text = pageContent, embedding = v\<rparr>]\<rparr>)))"

text \<open>The inner loop \<^verbatim>\<open>for (const item of batch)\<close>.\<close>

fun process_items :: "env \<Rightarrow> (real \<Rightarrow> string) \<Rightarrow> item list \<Rightarrow> unit io" where
  "process_items env ts [] s = (Inr (), s)"
| "process_items env ts (item # rest) s =
     (let summary = createItemSummary ts item
      in case fromDocuments env summary item s of
           (Inl e, s') \<Rightarrow> (Inl e, s')
         | (Inr _, s') \<Rightarrow> process_items env ts rest (console (Saved (item_id item)) s'))"

text \<open>One turn of the outer loop, at index \<open>i\<close>.\<close>

definition batch_body :: "env \<Rightarrow> (real \<Rightarrow> string) \<Rightarrow> item list \<Rightarrow> int \<Rightarrow> int \<Rightarrow> unit io" where
  "batch_body env ts items batchSize i s =
     (let batch = js_slice items i (i + batchSize)
      in case process_items env ts batch
                (console (Processing_batch i batchSize (length items)) s) of
           (Inl e, s') \<Rightarrow> (Inl e, s')
         | (Inr _, s') \<Rightarrow> (Inr (), emit (Pause 1000) (forceGC env s')))"

text \<open>
  The outer loop \<^verbatim>\<open>for (let i = 0; i < items.length; i += batchSize)\<close>. Nothing bounds
  the number of turns, so the loop is a partial function: \<open>None\<close> is a run that never
  returns.
\<close>

partial_function (option) batch_loop ::
  "env \<Rightarrow> (real \<Rightarrow> string) \<Rightarrow> item list \<Rightarrow> int \<Rightarrow> int \<Rightarrow> world \<Rightarrow> ((error + unit) \<times> world) option"
where
  "batch_loop env ts items batchSize i s =
     (if i < int (length items) then
        (case batch_body env ts items batchSize i s of
           (Inl e, s') \<Rightarrow> Some (Inl e, s')
         | (Inr _, s') \<Rightarrow> batch_loop env ts items batchSize (i + batchSize) s')
      else Some (Inr (), s))"

declare batch_loop.simps [code]

definition processBatch ::
  "env \<Rightarrow> (real \<Rightarrow> string) \<Rightarrow> item list \<Rightarrow> int \<Rightarrow> world \<Rightarrow> ((error + unit) \<times> world) option"
where
  "processBatch env ts items batchSize s = batch_loop env ts items batchSize 0 s"

text \<open>The batches the outer loop slices, one per turn, without what is done to them.\<close>

partial_function (option) batches :: "'a list \<Rightarrow> int \<Rightarrow> int \<Rightarrow> 'a list list option" where
  "batches items batchSize i =
     (if i < int (length items) then
        Option.bind (batches items batchSize (i + batchSize))
          (\<lambda>bs. Some (js_slice items i (i + batchSize) # bs))
      else Some [])"

declare batches.simps [code]

section \<open>\<^verbatim>\<open>seedDatabase\<close>\<close>

text \<open>The body of the \<^verbatim>\<open>try\<close> block, in two parts: everything up to and including the
  call of \<^verbatim>\<open>generateSyntheticData\<close>, which always returns, and the rest.\<close>

definition seedDatabase_setup :: "env \<Rightarrow> item list io" where
  "seedDatabase_setup env s =
     then_io (call Connect (connect_r env))
       (\<lambda>_. then_io (call Ping (ping_r env))
       (\<lambda>_ s1. then_io (setupDatabaseAndCollection env)
       (\<lambda>_. then_io (createVectorSearchIndex env)
       (\<lambda>_. then_io (call DeleteMany (deleteMany_r env))
       (\<lambda>_ s2. generateSyntheticData env (console Cleared (s2\<lparr>documents := []\<rparr>)))))
         (console Connected s1)))
       (console Connecting s)"

definition seedDatabase_try ::
  "env \<Rightarrow> (real \<Rightarrow> string) \<Rightarrow> world \<Rightarrow> ((error + unit) \<times> world) option"
where
  "seedDatabase_try env ts s =
     (case seedDatabase_setup env s of
        (Inl e, s') \<Rightarrow> Some (Inl e, s')
      | (Inr syntheticData, s') \<Rightarrow>
          (case processBatch env ts syntheticData 3
                  (console (Generated (length syntheticData)) s') of
             None \<Rightarrow> None
           | Some (Inl e, s'') \<Rightarrow> Some (Inl e, s'')
           | Some (Inr _, s'') \<Rightarrow> Some (Inr (), console Completed s'')))"

text \<open>
  \<^verbatim>\<open>try { ... } catch (error) { console.error(...) } finally { await client.close() }\<close>:
  an error of the body is logged and dropped; the result is that of \<^verbatim>\<open>close\<close>.
\<close>

definition seedDatabase ::
  "env \<Rightarrow> (real \<Rightarrow> string) \<Rightarrow> world \<Rightarrow> ((error + unit) \<times> world) option"
where
  "seedDatabase env ts s =
     (case seedDatabase_try env ts s of
        None \<Rightarrow> None
      | Some (r, s1) \<Rightarrow>
          (let s2 = (case r of Inl e \<Rightarrow> console (Seeding_error e) s1 | Inr _ \<Rightarrow> s1)
           in Some (call Close (close_r env) s2)))"

section \<open>Total descriptions of the outer loop\<close>

text \<open>
  For a positive batch size the outer loop is described by two total functions, which
  the proofs below work with: the list cut into pieces of \<open>n\<close> elements, and the run of
  the loop body over a given list of batches (\<open>l\<close> is \<^verbatim>\<open>items.length\<close>, \<open>b\<close> the batch
  size and \<open>i\<close> the index the first batch starts at).
\<close>

fun chunks :: "nat \<Rightarrow> 'a list \<Rightarrow> 'a list list" where
  "chunks n xs = (if n = 0 \<or> xs = [] then [] else take n xs # chunks n (drop n xs))"

declare chunks.simps [simp del]

fun run_batches ::
  "env \<Rightarrow> (real \<Rightarrow> string) \<Rightarrow> nat \<Rightarrow> int \<Rightarrow> int \<Rightarrow> item list list \<Rightarrow> unit io" where
  "run_batches env ts l b i [] s = (Inr (), s)"
| "run_batches env ts l b i (batch # rest) s =
     (case process_items env ts batch (console (Processing_batch i b l) s) of
        (Inl e, s') \<Rightarrow> (Inl e, s')
      | (Inr _, s') \<Rightarrow> run_batches env ts l b (i + b) rest (emit (Pause 1000) (forceGC env s')))"

section \<open>The summary as the specification words it\<close>

text \<open>
  The six parts in their fixed order: basic information, manufacturer country, the
  categories joined by a comma and a space, the review sentences joined by a space, the
  price sentence with the currency label, the notes.
\<close>

definition review_sentence :: "(real \<Rightarrow> string) \<Rightarrow> review \<Rightarrow> string" where
  "review_sentence ts r = concat [''Rated '', ts (rating r), '' on '', review_date r, '': '', comment r]"

definition joined :: "string \<Rightarrow> string list \<Rightarrow> string" where
  "joined sep xs = (case xs of [] \<Rightarrow> [] | x # ys \<Rightarrow> x @ concat (map (\<lambda>y. sep @ y) ys))"

definition summary_spec :: "(real \<Rightarrow> string) \<Rightarrow> item \<Rightarrow> string" where
  "summary_spec ts it = concat
     [item_name it, '' '', item_description it, '' from the brand '', brand it,
      ''. Manufacturer: Made in '', country (manufacturer_address it),
      ''. Categories: '', joined '', '' (categories it),
      ''. Reviews: '', joined '' '' (map (review_sentence ts) (user_reviews it)),
      ''. Price: At full price it costs: '', ts (full_price (prices it)),
      '' USD, On sale it costs: '', ts (sale_price (prices it)), '' USD'',
      ''. Notes: '', notes' it]"

section \<open>Records as candidates\<close>

text \<open>The JSON value whose members are the fields of a record, and the reading of a
  price member of a candidate.\<close>

definition address_json :: "address \<Rightarrow> json" where
  "address_json a = JObj [(''street'', JStr (street a)), (''city'', JStr (city a)),
     (''state'', JStr (state a)), (''postal_code'', JStr (postal_code a)),
     (''country'', JStr (country a))]"

definition prices_json :: "price_pair \<Rightarrow> json" where
  "prices_json p = JObj [(''full_price'', JNum (full_price p)), (''sale_price'', JNum (sale_price p))]"

definition review_json :: "review \<Rightarrow> json" where
  "review_json r = JObj [(''review_date'', JStr (review_date r)), (''rating'', JNum (rating r)),
     (''comment'', JStr (comment r))]"

definition item_json :: "item \<Rightarrow> json" where
  "item_json it = JObj [(''item_id'', JStr (item_id it)), (''item_name'', JStr (item_name it)),
     (''item_description'', JStr (item_description it)), (''brand'', JStr (brand it)),
     (''manufacturer_address'', address_json (manufacturer_address it)),
     (''prices'', prices_json (prices it)),
     (''categories'', JArr (map JStr (categories it))),
     (''user_reviews'', JArr (map review_json (user_reviews it))),
     (''notes'', JStr (notes' it))]"

definition price_member :: "json \<Rightarrow> string \<Rightarrow> json option" where
  "price_member cand k =
     (case cand of
        JObj kvs \<Rightarrow> (case map_of kvs ''prices'' of Some (JObj pv) \<Rightarrow> map_of pv k | _ \<Rightarrow> None)
      | _ \<Rightarrow> None)"

fun is_number :: "json option \<Rightarrow> bool" where
  "is_number (Some (JNum x)) = True"
| "is_number _ = False"

section \<open>Notions the statements about runs use\<close>

text \<open>Whether the first event occurs in a trace and the second occurs after it.\<close>

fun occurs_before :: "'a \<Rightarrow> 'a \<Rightarrow> 'a list \<Rightarrow> bool" where
  "occurs_before a b [] = False"
| "occurs_before a b (x # xs) = (if x = a then b \<in> set xs else occurs_before a b xs)"

text \<open>The events of the part of a run before \<^verbatim>\<open>processBatch\<close> is called.\<close>

fun setup_event :: "event \<Rightarrow> bool" where
  "setup_event (Ext (Embed n t)) = False"
| "setup_event (Ext (Insert n)) = False"
| "setup_event (Ext Close) = False"
| "setup_event (Ext c) = True"
| "setup_event (Console (Processing_batch i b l)) = False"
| "setup_event (Console (Saved i)) = False"
| "setup_event (Console Completed) = False"
| "setup_event (Console (Seeding_error e)) = False"
| "setup_event (Console (Generated n)) = False"
| "setup_event (Console m) = True"
| "setup_event GC = False"
| "setup_event (Pause n) = False"

text \<open>The events of \<^verbatim>\<open>processBatch\<close>.\<close>

fun batch_event :: "event \<Rightarrow> bool" where
  "batch_event (Ext (Embed n t)) = True"
| "batch_event (Ext (Insert n)) = True"
| "batch_event (Console (Processing_batch i b l)) = True"
| "batch_event (Console (Saved i)) = True"
| "batch_event GC = True"
| "batch_event (Pause n) = True"
| "batch_event _ = False"

text \<open>The position, in processing order, of the record an event of \<^verbatim>\<open>fromDocuments\<close>
  belongs to.\<close>

fun ordinal :: "event \<Rightarrow> nat option" where
  "ordinal (Ext (Embed n t)) = Some n"
| "ordinal (Ext (Insert n)) = Some n"
| "ordinal _ = None"

text \<open>The error, if any, with which \<^verbatim>\<open>fromDocuments\<close> is rejected for the record at
  position \<open>n\<close> with text \<open>t\<close>: that of the embedding, else that of the insertion.\<close>

definition store_error :: "env \<Rightarrow> nat \<Rightarrow> string \<Rightarrow> error option" where
  "store_error env n t = (case embed_r env n t of Inl e \<Rightarrow> Some e | Inr v \<Rightarrow> insert_r env n)"

text \<open>The document stored for a record at position \<open>n\<close>, and for consecutive records.\<close>

definition stored_of :: "env \<Rightarrow> (real \<Rightarrow> string) \<Rightarrow> nat \<Rightarrow> item \<Rightarrow> stored_doc" where
  "stored_of env ts n it =
     \<lparr>metadata = it, embedding_text = createItemSummary ts it,
      embedding = (case embed_r env n (createItemSummary ts it) of Inl e \<Rightarrow> [] | Inr v \<Rightarrow> v)\<rparr>"

fun stored_from :: "env \<Rightarrow> (real \<Rightarrow> string) \<Rightarrow> nat \<Rightarrow> item list \<Rightarrow> stored_doc list" where
  "stored_from env ts n [] = []"
| "stored_from env ts n (x # xs) = stored_of env ts n x # stored_from env ts (Suc n) xs"

text \<open>The first record of a list, processed from position \<open>n\<close> on, for which
  \<^verbatim>\<open>fromDocuments\<close> is rejected: its index in the list and the error.\<close>

fun first_failure :: "env \<Rightarrow> (real \<Rightarrow> string) \<Rightarrow> nat \<Rightarrow> item list \<Rightarrow> (nat \<times> error) option" where
  "first_failure env ts n [] = None"
| "first_failure env ts n (x # xs) =
     (case store_error env n (createItemSummary ts x) of
        Some e \<Rightarrow> Some (0, e)
      | None \<Rightarrow> map_option (\<lambda>(k, e). (Suc k, e)) (first_failure env ts (Suc n) xs))"

text \<open>The events that mark the progress of the batches: a record saved, memory
  reclamation, the pause.\<close>

fun is_mark :: "event \<Rightarrow> bool" where
  "is_mark (Console (Saved i)) = True"
| "is_mark GC = True"
| "is_mark (Pause n) = True"
| "is_mark _ = False"

definition marks :: "event list \<Rightarrow> event list" where
  "marks tr = filter is_mark tr"

definition saves :: "item list \<Rightarrow> event list" where
  "saves xs = map (\<lambda>x. Console (Saved (item_id x))) xs"

definition reclaim :: "env \<Rightarrow> event list" where
  "reclaim env = (if gc_available env then [GC] else [])"

text \<open>What follows a batch whose records were all saved.\<close>

definition batch_marks :: "env \<Rightarrow> item list \<Rightarrow> event list" where
  "batch_marks env b = saves b @ reclaim env @ [Pause 1000]"

text \<open>For a list of records processed from position \<open>n\<close> on: how many are saved, the result,
  and how many are handed to \<^verbatim>\<open>fromDocuments\<close>.\<close>

definition reached :: "env \<Rightarrow> (real \<Rightarrow> string) \<Rightarrow> nat \<Rightarrow> item list \<Rightarrow> nat" where
  "reached env ts n xs = (case first_failure env ts n xs of None \<Rightarrow> length xs | Some (k, e) \<Rightarrow> k)"

definition outcome :: "env \<Rightarrow> (real \<Rightarrow> string) \<Rightarrow> nat \<Rightarrow> item list \<Rightarrow> error + unit" where
  "outcome env ts n xs = (case first_failure env ts n xs of None \<Rightarrow> Inr () | Some (k, e) \<Rightarrow> Inl e)"

definition attempts :: "env \<Rightarrow> (real \<Rightarrow> string) \<Rightarrow> nat \<Rightarrow> item list \<Rightarrow> nat" where
  "attempts env ts n xs = (case first_failure env ts n xs of None \<Rightarrow> length xs | Some (k, e) \<Rightarrow> Suc k)"

text \<open>The marks of a run over the given batches in which \<open>d\<close> records are saved: a batch
  whose records are all saved is followed by reclamation and the pause; the batch in
  which a record fails ends the run after the records saved before it.\<close>

fun progress :: "env \<Rightarrow> item list list \<Rightarrow> nat \<Rightarrow> event list" where
  "progress env [] d = []"
| "progress env (b # bs) d =
     (if length b \<le> d then batch_marks env b @ progress env bs (d - length b)
      else saves (take d b))"

text \<open>The slices a run takes: one per turn of the outer loop, at the index \<open>i\<close> the turn
  logs before it processes its batch.\<close>

fun batch_starts :: "event list \<Rightarrow> int list" where
  "batch_starts [] = []"
| "batch_starts (Console (Processing_batch i b l) # es) = i # batch_starts es"
| "batch_starts (e # es) = batch_starts es"

definition batches_cut :: "item list \<Rightarrow> int \<Rightarrow> event list \<Rightarrow> item list list" where
  "batches_cut items batchSize tr =
     map (\<lambda>i. js_slice items i (i + batchSize)) (batch_starts tr)"

text \<open>What \<^verbatim>\<open>seedDatabase\<close> returns: the result of \<^verbatim>\<open>client.close()\<close>.\<close>

definition close_result :: "env \<Rightarrow> error + unit" where
  "close_result env = (case close_r env of None \<Rightarrow> Inr () | Some e \<Rightarrow> Inl e)"

text \<open>The same answers of the outside, except that provisioning the index succeeds; and
  what a run leaves behind, the trace and the index apart.\<close>

definition index_ok :: "env \<Rightarrow> env" where
  "index_ok env = env\<lparr>dropIndexes_r := None, createSearchIndex_r := None\<rparr>"


section \<open>Example data\<close>

definition render0 :: "real \<Rightarrow> string" where
  "render0 x = (if x = 5 then ''5'' else if x = 120 then ''120'' else if x = 99 then ''99''
                else if x = - 5 then ''-5'' else ''0'')"

definition item0 :: item where
  "item0 = \<lparr>item_id = ''F1'', item_name = ''Oak Chair'', item_description = ''A chair'',
            brand = ''Acme'',
            manufacturer_address = \<lparr>street = ''1 Main St'', city = ''Oslo'', state = ''Oslo'',
              postal_code = ''0150'', country = ''Norway''\<rparr>,
            prices = \<lparr>full_price = 120, sale_price = 99\<rparr>,
            categories = [''chairs'', ''oak''],
            user_reviews = [\<lparr>review_date = ''2024-01-02'', rating = 5, comment = ''Sturdy''\<rparr>],
            notes' = ''Flat-packed''\<rparr>"

definition env_ok :: env where
  "env_ok = \<lparr>connect_r = None, ping_r = None, listCollections_r = None,
             createCollection_r = None, dropIndexes_r = None, createSearchIndex_r = None,
             deleteMany_r = None, invoke_r = Inr ''[]'', json_of = (\<lambda>_. Some (JArr [])),
             embed_r = (\<lambda>_ _. Inr [0]), insert_r = (\<lambda>_. None), close_r = None,
             gc_available = False\<rparr>"

definition world0 :: world where
  "world0 = \<lparr>collection_exists = False, vector_index = False, documents = [], seq = 0,
             trace = []\<rparr>"

definition item_neg :: item where
  "item_neg = \<lparr>item_id = ''F2'', item_name = ''Desk'', item_description = ''A desk'',
            brand = ''Acme'',
            manufacturer_address = \<lparr>street = ''1 Main St'', city = ''Oslo'', state = ''Oslo'',
              postal_code = ''0150'', country = ''Norway''\<rparr>,
            prices = \<lparr>full_price = - 5, sale_price = 99\<rparr>,
            categories = [], user_reviews = [], notes' = ''Returned''\<rparr>"

definition cand_neg :: json where
  "cand_neg = JObj [(''item_id'', JStr ''F2''), (''item_name'', JStr ''Desk''),
     (''item_description'', JStr ''A desk''), (''brand'', JStr ''Acme''),
     (''manufacturer_address'', JObj [(''street'', JStr ''1 Main St''), (''city'', JStr ''Oslo''),
        (''state'', JStr ''Oslo''), (''postal_code'', JStr ''0150''), (''country'', JStr ''Norway'')]),
     (''prices'', JObj [(''full_price'', JNum (- 5)), (''sale_price'', JNum 99)]),
     (''categories'', JArr []), (''user_reviews'', JArr []), (''notes'', JStr ''Returned'')]"

definition env_neg :: env where
  "env_neg = env_ok\<lparr>json_of := (\<lambda>_. Some (JArr [cand_neg]))\<rparr>"

definition cand_no_price :: json where
  "cand_no_price = JObj [(''item_id'', JStr ''F3''), (''prices'', JObj [(''sale_price'', JNum 99)])]"

definition env_bad :: env where
  "env_bad = env_ok\<lparr>json_of := (\<lambda>_. Some (JArr [item_json item0, cand_no_price]))\<rparr>"

definition env_one :: env where
  "env_one = env_ok\<lparr>json_of := (\<lambda>_. Some (JArr [item_json item0]))\<rparr>"

definition env_down :: env where
  "env_down = env_ok\<lparr>connect_r := Some (Rejected ''down'')\<rparr>"

definition env_reject :: env where
  "env_reject = env_ok\<lparr>embed_r := (\<lambda>_ _. Inl (Rejected ''quota'')), gc_available := True\<rparr>"

definition env_third :: env where
  "env_third = env_ok\<lparr>embed_r := (\<lambda>n _. if n = 2 then Inl (Rejected ''quota'') else Inr [0])\<rparr>"

definition env_second :: env where
  "env_second = env_ok\<lparr>json_of := (\<lambda>_. Some (JArr [item_json item0, cand_neg, item_json item0])),
     insert_r := (\<lambda>n. if n = 1 then Some (Rejected ''write'') else None)\<rparr>"


section \<open>The partition into batches\<close>

lemma js_slice_forward:
  "0 \<le> i \<Longrightarrow> 0 \<le> b \<Longrightarrow> js_slice xs i (i + b) = take (nat b) (drop (nat i) xs)"
  by (auto simp: js_slice_def Let_def min_def nat_diff_distrib' nat_add_distrib)

lemma concat_chunks: "0 < n \<Longrightarrow> concat (chunks n xs) = xs"
  by (induction n xs rule: chunks.induct) (subst chunks.simps, auto)

lemma chunks_Nil [simp]: "chunks n [] = []"
  by (subst chunks.simps) simp

lemma chunks_Cons: "0 < n \<Longrightarrow> xs \<noteq> [] \<Longrightarrow> chunks n xs = take n xs # chunks n (drop n xs)"
  by (subst chunks.simps) simp

lemma div_step: "0 < n \<Longrightarrow> 0 < (l::nat) \<Longrightarrow> Suc ((l - n + n - 1) div n) = (l + n - 1) div n"
proof (cases "n \<le> l")
  case True
  assume "0 < n" "0 < l"
  with True have "(l + n - 1) div n = (l - 1 + n) div n" by simp
  also have "\<dots> = Suc ((l - 1) div n)" using \<open>0 < n\<close> by simp
  finally show ?thesis using True by simp
next
  case False
  assume "0 < n" "0 < l"
  with False have "(l + n - 1) div n = 1" 
    by (simp add: div_eq_dividend_iff le_div_geq)
  with False \<open>0 < n\<close> show ?thesis by simp
qed

lemma length_chunks: "0 < n \<Longrightarrow> length (chunks n xs) = (length xs + n - 1) div n"
proof (induction n xs rule: chunks.induct)
  case (1 n xs)
  show ?case
  proof (cases "xs = []")
    case True
    with 1 show ?thesis by simp
  next
    case False
    then have "length (chunks n xs) = Suc ((length xs - n + n - 1) div n)"
      using 1 by (simp add: chunks_Cons)
    then show ?thesis using div_step [of n "length xs"] 1 False by simp
  qed
qed

lemma ceiling_div_nat:
  assumes "0 < n"
  shows "\<lceil>real l / real n\<rceil> = int ((l + n - 1) div n)"
proof (rule ceiling_unique)
  define q where "q = (l + n - 1) div n"
  have a: "q * n \<le> l + n - 1" unfolding q_def by simp
  have b: "l + n - 1 < q * n + n" unfolding q_def
    using assms dividend_less_div_times [of n "l + n - 1"] by (simp add: mult.commute)
  from a assms have "q * n + 1 \<le> l + n" by arith
  then have "real (q * n + 1) \<le> real (l + n)" by (simp only: of_nat_le_iff)
  then have "real (q * n) + 1 \<le> real l + real n" by simp
  then have "(real q - 1) * real n < real l" by (simp add: algebra_simps)
  then show "of_int (int ((l + n - 1) div n)) - 1 < real l / real n"
    using assms by (simp add: q_def pos_less_divide_eq)
  from b assms have "l \<le> q * n" by simp
  then have "real l \<le> real (q * n)" by (simp only: of_nat_le_iff)
  then have "real l \<le> real q * real n" by simp
  then show "real l / real n \<le> of_int (int ((l + n - 1) div n))"
    using assms by (simp add: q_def pos_divide_le_eq)
qed

lemma batches_chunks:
  assumes "1 \<le> B"
  shows "0 \<le> i \<Longrightarrow> batches xs B i = Some (chunks (nat B) (drop (nat i) xs))"
proof (induction "nat (int (length xs) - i)" arbitrary: i rule: less_induct)
  case less
  show ?case
  proof (cases "i < int (length xs)")
    case True
    have "batches xs B (i + B) = Some (chunks (nat B) (drop (nat (i + B)) xs))"
      using less True assms by (intro less.hyps) auto
    moreover have "js_slice xs i (i + B) = take (nat B) (drop (nat i) xs)"
      using less.prems assms by (intro js_slice_forward) auto
    moreover have "drop (nat (i + B)) xs = drop (nat B) (drop (nat i) xs)"
      using less.prems assms by (simp add: nat_add_distrib add.commute)
    moreover have "drop (nat i) xs \<noteq> []" using True less.prems by simp
    ultimately show ?thesis using True assms
      by (subst batches.simps) (simp add: chunks_Cons)
  next
    case False
    then show ?thesis using less.prems
      by (subst batches.simps) simp
  qed
qed


lemma chunks_nth_full:
  "0 < n \<Longrightarrow> Suc j < length (chunks n xs) \<Longrightarrow> length (chunks n xs ! j) = n"
proof (induction n xs arbitrary: j rule: chunks.induct)
  case (1 n xs)
  then have ne: "xs \<noteq> []" by auto
  then have eq: "chunks n xs = take n xs # chunks n (drop n xs)"
    using 1 by (simp add: chunks_Cons)
  show ?case
  proof (cases j)
    case 0
    with 1 eq have "chunks n (drop n xs) \<noteq> []" by auto
    then have "drop n xs \<noteq> []" by auto
    then show ?thesis using 0 eq by simp
  next
    case (Suc k)
    with 1 eq ne show ?thesis by simp
  qed
qed

lemma chunks_bounds:
  "0 < n \<Longrightarrow> b \<in> set (chunks n xs) \<Longrightarrow> b \<noteq> [] \<and> length b \<le> n"
proof (induction n xs rule: chunks.induct)
  case (1 n xs)
  then have ne: "xs \<noteq> []" by auto
  then have eq: "chunks n xs = take n xs # chunks n (drop n xs)"
    using 1 by (simp add: chunks_Cons)
  with 1 ne show ?case by auto
qed

section \<open>Termination of \<^verbatim>\<open>processBatch\<close>\<close>

lemma batch_loop_chunks:
  assumes "1 \<le> B"
  shows "0 \<le> i \<Longrightarrow> batch_loop env ts items B i s =
           Some (run_batches env ts (length items) B i (chunks (nat B) (drop (nat i) items)) s)"
proof (induction "nat (int (length items) - i)" arbitrary: i s rule: less_induct)
  case less
  show ?case
  proof (cases "i < int (length items)")
    case True
    have ih: "batch_loop env ts items B (i + B) s' =
        Some (run_batches env ts (length items) B (i + B) (chunks (nat B) (drop (nat (i + B)) items)) s')" for s'
      using less True assms by (intro less.hyps) auto
    have sl: "js_slice items i (i + B) = take (nat B) (drop (nat i) items)"
      using less.prems assms by (intro js_slice_forward) auto
    have dr: "drop (nat (i + B)) items = drop (nat B) (drop (nat i) items)"
      using less.prems assms by (simp add: nat_add_distrib add.commute)
    have ne: "drop (nat i) items \<noteq> []" using True less.prems by simp
    have ch: "chunks (nat B) (drop (nat i) items) =
        take (nat B) (drop (nat i) items) # chunks (nat B) (drop (nat (i + B)) items)"
      using ne assms by (simp add: chunks_Cons dr)
    show ?thesis using True
      by (subst batch_loop.simps) (simp add: ih ch batch_body_def sl split: prod.splits sum.splits)
  next
    case False
    then show ?thesis using less.prems
      by (subst batch_loop.simps) simp
  qed
qed

lemma processBatch_batches:
  assumes "1 \<le> B"
  shows "\<exists>bs. batches items B 0 = Some bs \<and>
           processBatch env ts items B s =
             Some (run_batches env ts (length items) B 0 bs s)"
  using batches_chunks [OF assms, of 0 items] batch_loop_chunks [OF assms, of 0 env ts items s]
  by (simp add: processBatch_def)

lemma batch_loop_zero:
  assumes "batch_loop env ts items B i s = Some y"
  shows "\<not> (B = 0 \<and> i < int (length items))"
proof (rule batch_loop.raw_induct
    [where P = "\<lambda>env ts items B i s y. \<not> (B = 0 \<and> i < int (length items))", OF _ assms])
  fix f env ts and items :: "item list" and B i :: int and s y
  assume ih: "\<And>env ts items B i s y. f env ts items B i s = Some y \<Longrightarrow> \<not> (B = 0 \<and> i < int (length items))"
    and body: "(if i < int (length items) then
        (case batch_body env ts items B i s of
           (Inl e, s') \<Rightarrow> Some (Inl e, s')
         | (Inr _, s') \<Rightarrow> f env ts items B (i + B) s')
      else Some (Inr (), s)) = Some y"
  show "\<not> (B = 0 \<and> i < int (length items))"
  proof
    assume a: "B = 0 \<and> i < int (length items)"
    then have "js_slice items i (i + B) = []" by (simp add: js_slice_def Let_def)
    then obtain s' where "batch_body env ts items B i s = (Inr (), s')"
      by (simp add: batch_body_def)
    with body a have "f env ts items B i s' = Some y" by simp
    from ih [OF this] a show False by simp
  qed
qed

text \<open>
  C10. \<^verbatim>\<open>processBatch\<close> returns for every list of records when the batch size is at
  least 1. The bound is needed: with batch size 0 and a list that is not empty the index
  never advances and the call never returns.
\<close>

theorem processBatch_terminates:
  "(1 \<le> B \<longrightarrow> (\<exists>r. processBatch env ts items B s = Some r)) \<and>
   (items \<noteq> [] \<longrightarrow> processBatch env ts items 0 s = None)"
proof (intro conjI impI)
  assume "1 \<le> B"
  then show "\<exists>r. processBatch env ts items B s = Some r"
    by (simp add: processBatch_def batch_loop_chunks)
next
  assume "items \<noteq> []"
  then have "batch_loop env ts items 0 0 s \<noteq> Some y" for y
    using batch_loop_zero [of env ts items 0 0 s y] by auto
  then have "batch_loop env ts items 0 0 s = None"
    by (cases "batch_loop env ts items 0 0 s") auto
  then show "processBatch env ts items 0 s = None"
    by (simp add: processBatch_def)
qed

theorem processBatch_terminates_witness:
  "(1::int) \<le> 3 \<and> (\<exists>r. processBatch env_ok render0 [item0] 3 world0 = Some r) \<and>
   [item0] \<noteq> [] \<and> processBatch env_ok render0 [item0] 0 world0 = None"
  using processBatch_terminates [of 3 env_ok render0 "[item0]" world0] by simp

section \<open>The batches a run cuts\<close>

lemma batch_starts_append: "batch_starts (xs @ ys) = batch_starts xs @ batch_starts ys"
  by (induction xs rule: batch_starts.induct) simp_all

lemma fromDocuments_starts:
  "batch_starts (trace (snd (fromDocuments env t it s))) = batch_starts (trace s)"
  by (simp add: fromDocuments_def Let_def emit_def batch_starts_append
      split: sum.splits option.splits)

lemma process_items_starts:
  "batch_starts (trace (snd (process_items env ts xs s))) = batch_starts (trace s)"
proof (induction xs arbitrary: s)
  case Nil
  show ?case by simp
next
  case (Cons x xs)
  obtain r s1 where f: "fromDocuments env (createItemSummary ts x) x s = (r, s1)"
    by (cases "fromDocuments env (createItemSummary ts x) x s")
  have s1: "batch_starts (trace s1) = batch_starts (trace s)"
    using fromDocuments_starts [of env "createItemSummary ts x" x s] f by simp
  show ?case
  proof (cases r)
    case (Inl e)
    with f s1 show ?thesis by simp
  next
    case (Inr u)
    have "batch_starts (trace (console (Saved (item_id x)) s1)) = batch_starts (trace s)"
      by (simp add: console_def emit_def batch_starts_append s1)
    with f Inr Cons.IH [of "console (Saved (item_id x)) s1"] show ?thesis by simp
  qed
qed

lemma run_batches_starts:
  "run_batches env ts l b i bs s = (r, s') \<Longrightarrow>
     \<exists>m\<le>length bs. batch_starts (trace s') =
         batch_starts (trace s) @ map (\<lambda>j. i + int j * b) [0..<m]
       \<and> (r = Inr () \<longrightarrow> m = length bs)"
proof (induction bs arbitrary: i s)
  case Nil
  then show ?case by auto
next
  case (Cons x bs)
  define s0 where "s0 = console (Processing_batch i b l) s"
  have s0: "batch_starts (trace s0) = batch_starts (trace s) @ [i]"
    by (simp add: s0_def console_def emit_def batch_starts_append)
  obtain r1 s1 where p: "process_items env ts x s0 = (r1, s1)"
    by (cases "process_items env ts x s0")
  have s1: "batch_starts (trace s1) = batch_starts (trace s) @ [i]"
    using process_items_starts [of env ts x s0] p s0 by simp
  show ?case
  proof (cases r1)
    case (Inl e)
    with Cons.prems p have "r = Inl e" "s' = s1" by (simp_all add: s0_def)
    with s1 have "batch_starts (trace s') =
        batch_starts (trace s) @ map (\<lambda>j. i + int j * b) [0..<1]" by simp
    with \<open>r = Inl e\<close> show ?thesis by (intro exI [of _ 1]) simp
  next
    case (Inr u)
    define s2 where "s2 = emit (Pause 1000) (forceGC env s1)"
    have s2: "batch_starts (trace s2) = batch_starts (trace s) @ [i]"
      by (simp add: s2_def forceGC_def emit_def batch_starts_append s1)
    have "run_batches env ts l b (i + b) bs s2 = (r, s')"
      using Cons.prems p Inr by (simp add: s0_def s2_def)
    from Cons.IH [OF this] obtain m where
      m: "m \<le> length bs"
        "batch_starts (trace s') =
           batch_starts (trace s2) @ map (\<lambda>j. i + b + int j * b) [0..<m]"
        "r = Inr () \<longrightarrow> m = length bs"
      by blast
    have "map (\<lambda>j. i + int j * b) [0..<Suc m] =
        i # map (\<lambda>j. i + b + int j * b) [0..<m]"
      by (simp add: upt_conv_Cons map_Suc_upt [symmetric] algebra_simps del: upt_Suc)
    then have "batch_starts (trace s') =
        batch_starts (trace s) @ map (\<lambda>j. i + int j * b) [0..<Suc m]"
      using m(2) s2 by simp
    with m(1,3) show ?thesis by (intro exI [of _ "Suc m"]) simp
  qed
qed

lemma chunks_nth:
  "0 < n \<Longrightarrow> j < length (chunks n xs) \<Longrightarrow> chunks n xs ! j = take n (drop (j * n) xs)"
proof (induction n xs arbitrary: j rule: chunks.induct)
  case (1 n xs)
  then have ne: "xs \<noteq> []" by auto
  then have eq: "chunks n xs = take n xs # chunks n (drop n xs)"
    using 1 by (simp add: chunks_Cons)
  show ?case
  proof (cases j)
    case 0
    then show ?thesis using eq by simp
  next
    case (Suc k)
    with 1 eq ne show ?thesis by (simp add: add.commute)
  qed
qed

lemma slices_chunks:
  assumes "0 < n" and "m \<le> length (chunks n xs)"
  shows "map (\<lambda>i. js_slice xs i (i + int n)) (map (\<lambda>j. 0 + int j * int n) [0..<m]) =
           take m (chunks n xs)"
proof (rule nth_equalityI)
  show "length (map (\<lambda>i. js_slice xs i (i + int n)) (map (\<lambda>j. 0 + int j * int n) [0..<m])) =
      length (take m (chunks n xs))"
    using assms by simp
next
  fix j assume "j < length (map (\<lambda>i. js_slice xs i (i + int n))
      (map (\<lambda>j. 0 + int j * int n) [0..<m]))"
  then have j: "j < m" by simp
  have "js_slice xs (int j * int n) (int j * int n + int n) = take n (drop (j * n) xs)"
    using js_slice_forward [of "int j * int n" "int n" xs] by (simp add: nat_mult_distrib)
  then show "map (\<lambda>i. js_slice xs i (i + int n)) (map (\<lambda>j. 0 + int j * int n) [0..<m]) ! j =
      take m (chunks n xs) ! j"
    using j assms by (simp add: chunks_nth)
qed


text \<open>
  C1. For every list of records of length \<open>L\<close> and every batch size \<open>B \<ge> 1\<close> there is a
  list \<open>bs\<close> of \<open>\<lceil>L / B\<rceil>\<close> batches, every batch but the last of exactly \<open>B\<close> records,
  every batch of between 1 and \<open>B\<close> records, whose concatenation in order is the original
  list, and \<^verbatim>\<open>processBatch\<close> works on that partition: it returns, it is the run of the
  loop body over \<open>bs\<close>, batch by batch, and the slices it takes, one per turn, are the
  leading batches of \<open>bs\<close>, all of them when no record fails (a record that fails ends
  the loop in its batch).
\<close>

theorem processBatch_partition:
  assumes "1 \<le> B"
  shows "\<exists>bs r s'.
           int (length bs) = \<lceil>real (length items) / real_of_int B\<rceil>
         \<and> (\<forall>j. Suc j < length bs \<longrightarrow> int (length (bs ! j)) = B)
         \<and> (\<forall>b \<in> set bs. b \<noteq> [] \<and> int (length b) \<le> B)
         \<and> concat bs = items
         \<and> batches items B 0 = Some bs
         \<and> processBatch env ts items B s = Some (r, s')
         \<and> (r, s') = run_batches env ts (length items) B 0 bs s
         \<and> (\<exists>m\<le>length bs.
               batches_cut items B (trace s') = batches_cut items B (trace s) @ take m bs
             \<and> (r = Inr () \<longrightarrow> m = length bs))"
proof -
  define n where "n = nat B"
  have n: "0 < n" "B = int n" using assms by (simp_all add: n_def)
  define bs where "bs = chunks n items"
  obtain r s' where run: "run_batches env ts (length items) B 0 bs s = (r, s')"
    by (cases "run_batches env ts (length items) B 0 bs s")
  have "int (length bs) = \<lceil>real (length items) / real_of_int B\<rceil>"
    using n by (simp add: bs_def length_chunks ceiling_div_nat)
  moreover have "\<forall>j. Suc j < length bs \<longrightarrow> int (length (bs ! j)) = B"
    using n by (simp add: bs_def chunks_nth_full)
  moreover have "\<forall>b \<in> set bs. b \<noteq> [] \<and> int (length b) \<le> B"
    using n chunks_bounds [of n _ items] by (auto simp: bs_def)
  moreover have "concat bs = items"
    using n by (simp add: bs_def concat_chunks)
  moreover have "batches items B 0 = Some bs"
    using batches_chunks [OF assms, of 0 items] by (simp add: bs_def n_def)
  moreover have "processBatch env ts items B s = Some (r, s')"
    using batch_loop_chunks [OF assms, of 0 env ts items s] run
    by (simp add: processBatch_def bs_def n_def)
  moreover have "\<exists>m\<le>length bs.
      batches_cut items B (trace s') = batches_cut items B (trace s) @ take m bs
      \<and> (r = Inr () \<longrightarrow> m = length bs)"
  proof -
    from run_batches_starts [OF run] obtain m where
      m: "m \<le> length bs"
        "batch_starts (trace s') = batch_starts (trace s) @ map (\<lambda>j. 0 + int j * B) [0..<m]"
        "r = Inr () \<longrightarrow> m = length bs"
      by blast
    have "map (\<lambda>i. js_slice items i (i + B)) (map (\<lambda>j. 0 + int j * B) [0..<m]) = take m bs"
      using slices_chunks [OF n(1), of m items] m(1) unfolding bs_def n(2) by simp
    then have "batches_cut items B (trace s') = batches_cut items B (trace s) @ take m bs"
      by (simp add: batches_cut_def m(2))
    with m(1,3) show ?thesis by blast
  qed
  ultimately show ?thesis using run [symmetric] by blast
qed


theorem processBatch_partition_witness:
  "(1::int) \<le> 2 \<and>
   fst (the (processBatch env_ok render0 [item0, item_neg, item0] 2 world0)) = Inr () \<and>
   batches_cut [item0, item_neg, item0] 2
     (trace (snd (the (processBatch env_ok render0 [item0, item_neg, item0] 2 world0)))) =
     [[item0, item_neg], [item0]] \<and>
   fst (the (processBatch env_reject render0 [item0, item_neg, item0] 2 world0)) =
     Inl (Rejected ''quota'') \<and>
   batches_cut [item0, item_neg, item0] 2
     (trace (snd (the (processBatch env_reject render0 [item0, item_neg, item0] 2 world0)))) =
     [[item0, item_neg]] \<and>
   (\<exists>bs r s'.
        int (length bs) = \<lceil>real (length [item0, item_neg, item0]) / real_of_int 2\<rceil>
      \<and> (\<forall>j. Suc j < length bs \<longrightarrow> int (length (bs ! j)) = 2)
      \<and> (\<forall>b \<in> set bs. b \<noteq> [] \<and> int (length b) \<le> 2)
      \<and> concat bs = [item0, item_neg, item0]
      \<and> batches [item0, item_neg, item0] 2 0 = Some bs
      \<and> processBatch env_ok render0 [item0, item_neg, item0] 2 world0 = Some (r, s')
      \<and> (r, s') = run_batches env_ok render0 (length [item0, item_neg, item0]) 2 0 bs world0
      \<and> (\<exists>m\<le>length bs.
            batches_cut [item0, item_neg, item0] 2 (trace s') =
              batches_cut [item0, item_neg, item0] 2 (trace world0) @ take m bs
          \<and> (r = Inr () \<longrightarrow> m = length bs)))"
proof -
  have a: "fst (the (processBatch env_ok render0 [item0, item_neg, item0] 2 world0)) = Inr ()"
    by code_simp
  have b: "batches_cut [item0, item_neg, item0] 2
     (trace (snd (the (processBatch env_ok render0 [item0, item_neg, item0] 2 world0)))) =
     [[item0, item_neg], [item0]]"
    by code_simp
  have c: "fst (the (processBatch env_reject render0 [item0, item_neg, item0] 2 world0)) =
     Inl (Rejected ''quota'')"
    by code_simp
  have d: "batches_cut [item0, item_neg, item0] 2
     (trace (snd (the (processBatch env_reject render0 [item0, item_neg, item0] 2 world0)))) =
     [[item0, item_neg]]"
    by code_simp
  have e: "(1::int) \<le> 2" by simp
  from processBatch_partition [OF e, of "[item0, item_neg, item0]" env_ok render0 world0]
  have f: "\<exists>bs r s'.
        int (length bs) = \<lceil>real (length [item0, item_neg, item0]) / real_of_int 2\<rceil>
      \<and> (\<forall>j. Suc j < length bs \<longrightarrow> int (length (bs ! j)) = 2)
      \<and> (\<forall>b \<in> set bs. b \<noteq> [] \<and> int (length b) \<le> 2)
      \<and> concat bs = [item0, item_neg, item0]
      \<and> batches [item0, item_neg, item0] 2 0 = Some bs
      \<and> processBatch env_ok render0 [item0, item_neg, item0] 2 world0 = Some (r, s')
      \<and> (r, s') = run_batches env_ok render0 (length [item0, item_neg, item0]) 2 0 bs world0
      \<and> (\<exists>m\<le>length bs.
            batches_cut [item0, item_neg, item0] 2 (trace s') =
              batches_cut [item0, item_neg, item0] 2 (trace world0) @ take m bs
          \<and> (r = Inr () \<longrightarrow> m = length bs))" .
  from a b c d e f show ?thesis by (intro conjI)
qed

section \<open>The summary\<close>

lemma join_joined: "join sep xs = joined sep xs"
  by (induction sep xs rule: join.induct) (simp_all add: joined_def)

text \<open>
  C3. For every record, \<^verbatim>\<open>createItemSummary\<close> yields a string that is a function of the
  record alone (so two calls on the same record give the same string), and that string
  is exactly the fixed concatenation: name, description and brand, then the manufacturer
  country, then the categories joined by a comma, then the review sentences
  ``Rated rating on date: comment'' joined by a space, then the price sentence with the
  currency label, then the notes.
\<close>

theorem createItemSummary_format: "createItemSummary ts item = summary_spec ts item"
  by (simp add: createItemSummary_def summary_spec_def Let_def join_joined
      review_sentence_def [abs_def])

lemma createItemSummary_item0:
  "createItemSummary render0 item0 =
     ''Oak Chair A chair from the brand Acme. Manufacturer: Made in Norway. Categories: chairs, oak. Reviews: Rated 5 on 2024-01-02: Sturdy. Price: At full price it costs: 120 USD, On sale it costs: 99 USD. Notes: Flat-packed''"
  by (simp add: createItemSummary_def item0_def render0_def)

section \<open>Validation of the generation response\<close>

lemma z_elems_Inr: "z_elems p js = Inr vs \<longleftrightarrow> map p js = map Inr vs"
proof (induction js arbitrary: vs)
  case Nil
  show ?case by auto
next
  case (Cons j js)
  show ?case
  proof (cases "p j")
    case (Inl e)
    then show ?thesis by auto
  next
    case pj: (Inr v)
    show ?thesis
    proof (cases "z_elems p js")
      case (Inl e)
      then have "map p js \<noteq> map Inr ws" for ws using Cons.IH [of ws] by simp
      with Inl pj show ?thesis by (cases vs) auto
    next
      case (Inr ws)
      then have "map p js = map Inr ws" using Cons.IH by simp
      with Inr pj show ?thesis by (cases vs) auto
    qed
  qed
qed

lemma z_elems_Inl: "\<exists>j \<in> set js. isl (p j) \<Longrightarrow> isl (z_elems p js)"
proof (induction js)
  case Nil
  then show ?case by simp
next
  case (Cons j js)
  show ?case
  proof (cases "p j")
    case (Inl e)
    then show ?thesis by simp
  next
    case (Inr v)
    with Cons.prems have "\<exists>j \<in> set js. isl (p j)" by auto
    then have "isl (z_elems p js)" by (rule Cons.IH)
    with Inr show ?thesis by (cases "z_elems p js") auto
  qed
qed

lemma z_elems_map:
  "(\<And>x. p (f x) = Inr x) \<Longrightarrow> z_elems p (map f xs) = Inr xs"
  by (induction xs) simp_all

lemma reviewSchema_json: "reviewSchema (review_json r) = Inr r"
  by (simp add: review_json_def z_key_def bind_r_def)

lemma addressSchema_json: "addressSchema (address_json r) = Inr r"
  by (simp add: address_json_def z_key_def bind_r_def)

lemma pricesSchema_json: "pricesSchema (prices_json r) = Inr r"
  by (simp add: prices_json_def z_key_def bind_r_def)

lemma itemSchema_json: "itemSchema (item_json it) = Inr it"
  by (simp add: item_json_def z_key_def bind_r_def reviewSchema_json addressSchema_json
      pricesSchema_json z_elems_map)

lemma cand_neg_accepted: "itemSchema cand_neg = Inr item_neg"
  by (simp add: cand_neg_def item_neg_def z_key_def bind_r_def)

lemma pricesSchema_not_number:
  "\<not> is_number (map_of pv ''full_price'') \<or> \<not> is_number (map_of pv ''sale_price'')
   \<Longrightarrow> isl (pricesSchema (JObj pv))"
  apply (cases "map_of pv ''full_price''")
   apply (simp add: z_key_def bind_r_def)
  subgoal for a
    apply (cases a; simp add: z_key_def bind_r_def)
    apply (cases "map_of pv ''sale_price''")
     apply (simp add: z_key_def bind_r_def)
    subgoal for x b
      by (cases b; simp add: z_key_def bind_r_def)
    done
  done

lemma itemSchema_prices_rejected:
  "isl (z_key pricesSchema kvs ''prices'') \<Longrightarrow> isl (itemSchema (JObj kvs))"
  by (auto simp: bind_r_def split: sum.splits)

lemma itemSchema_price_not_number:
  assumes "\<not> is_number (price_member cand ''full_price'') \<or>
           \<not> is_number (price_member cand ''sale_price'')"
  shows "isl (itemSchema cand)"
proof (cases cand)
  case (JObj kvs)
  show ?thesis
  proof (cases "map_of kvs ''prices''")
    case None
    then have "isl (z_key pricesSchema kvs ''prices'')" by (simp add: z_key_def)
    then show ?thesis unfolding JObj by (rule itemSchema_prices_rejected)
  next
    case (Some p)
    have "isl (z_key pricesSchema kvs ''prices'')"
    proof (cases p)
      case pv: (JObj pv)
      with assms JObj Some have "isl (pricesSchema (JObj pv))"
        by (intro pricesSchema_not_number) (simp add: price_member_def)
      then show ?thesis using Some pv by (simp add: z_key_def)
    qed (use Some in \<open>simp_all add: z_key_def\<close>)
    then show ?thesis unfolding JObj by (rule itemSchema_prices_rejected)
  qed
qed simp_all

lemma generateSyntheticData_result:
  "fst (generateSyntheticData env s) =
     (case invoke_r env of Inl e \<Rightarrow> Inl e | Inr content \<Rightarrow> parser_parse (json_of env) content)"
  by (simp add: generateSyntheticData_def then_io_def split: sum.splits)

text \<open>
  C7. Validation of the generation response is all or nothing: when one element of the
  response array fails the record schema, \<^verbatim>\<open>generateSyntheticData\<close> fails and returns no
  records; and a list it returns is, element by element, the validated image of the
  response array, so it never holds an invalid record.
\<close>

theorem generateSyntheticData_all_or_nothing:
  "(invoke_r env = Inr content \<longrightarrow> json_of env content = Some (JArr js) \<longrightarrow>
      j \<in> set js \<longrightarrow> isl (itemSchema j) \<longrightarrow>
      fst (generateSyntheticData env s) = Inl OutputParserException) \<and>
   (fst (generateSyntheticData env s) = Inr its \<longrightarrow>
      (\<exists>content js. invoke_r env = Inr content \<and> json_of env content = Some (JArr js) \<and>
         map itemSchema js = map Inr its))"
proof (intro conjI impI)
  assume "invoke_r env = Inr content" "json_of env content = Some (JArr js)"
    "j \<in> set js" "isl (itemSchema j)"
  moreover from this have "isl (z_elems itemSchema js)" by (intro z_elems_Inl) auto
  ultimately show "fst (generateSyntheticData env s) = Inl OutputParserException"
    by (auto simp: generateSyntheticData_result parser_parse_def split: sum.splits)
next
  assume a: "fst (generateSyntheticData env s) = Inr its"
  then obtain content where c: "invoke_r env = Inr content"
    by (cases "invoke_r env") (auto simp: generateSyntheticData_result)
  with a have p: "parser_parse (json_of env) content = Inr its"
    by (simp add: generateSyntheticData_result)
  then obtain v where v: "json_of env content = Some v" "z_array itemSchema v = Inr its"
    by (auto simp: parser_parse_def split: option.splits sum.splits)
  then obtain js where "v = JArr js" by (cases v) auto
  with v c show "\<exists>content js. invoke_r env = Inr content \<and> json_of env content = Some (JArr js) \<and>
         map itemSchema js = map Inr its"
    by (auto simp: z_elems_Inr)
qed

theorem generateSyntheticData_all_or_nothing_witness:
  "(invoke_r env_bad = Inr ''[]'' \<and>
    json_of env_bad ''[]'' = Some (JArr [item_json item0, cand_no_price]) \<and>
    cand_no_price \<in> set [item_json item0, cand_no_price] \<and> isl (itemSchema cand_no_price) \<and>
    fst (generateSyntheticData env_bad world0) = Inl OutputParserException) \<and>
   (fst (generateSyntheticData env_one world0) = Inr [item0] \<and>
    (\<exists>content js. invoke_r env_one = Inr content \<and> json_of env_one content = Some (JArr js) \<and>
       map itemSchema js = map Inr [item0]))"
proof -
  have a: "invoke_r env_bad = Inr ''[]''"
    "json_of env_bad ''[]'' = Some (JArr [item_json item0, cand_no_price])"
    by (simp_all add: env_bad_def env_ok_def)
  have b: "isl (itemSchema cand_no_price)"
    by (simp add: cand_no_price_def z_key_def bind_r_def)
  have c: "fst (generateSyntheticData env_one world0) = Inr [item0]"
    by (simp add: generateSyntheticData_result parser_parse_def env_one_def env_ok_def
        itemSchema_json)
  show ?thesis
    using a b c
      generateSyntheticData_all_or_nothing
        [of env_bad "''[]''" "[item_json item0, cand_no_price]" cand_no_price world0 "[]"]
      generateSyntheticData_all_or_nothing [of env_one "''[]''" "[]" JNull world0 "[item0]"]
    by simp
qed

section \<open>Runs of \<^verbatim>\<open>processBatch\<close>\<close>

lemma fromDocuments_result:
  "fromDocuments env t it s =
     (case store_error env (seq s) t of
        Some e \<Rightarrow> (Inl e, snd (fromDocuments env t it s))
      | None \<Rightarrow> (Inr (), snd (fromDocuments env t it s)))"
  by (simp add: fromDocuments_def store_error_def Let_def split: sum.splits option.splits)

lemma fromDocuments_fail:
  assumes "store_error env (seq s) (createItemSummary ts it) = Some e"
  shows "\<exists>s'. fromDocuments env (createItemSummary ts it) it s = (Inl e, s')
     \<and> documents s' = documents s \<and> seq s' = Suc (seq s)
     \<and> collection_exists s' = collection_exists s \<and> vector_index s' = vector_index s
     \<and> marks (trace s') = marks (trace s)
     \<and> (\<exists>t. trace s' = trace s @ t \<and> list_all batch_event t
             \<and> (\<forall>ev \<in> set t. \<forall>m. ordinal ev = Some m \<longrightarrow> m = seq s))"
  using assms
  by (auto simp: fromDocuments_def store_error_def Let_def emit_def marks_def
      split: sum.splits option.splits)

lemma fromDocuments_ok:
  assumes "store_error env (seq s) (createItemSummary ts it) = None"
  shows "\<exists>s'. fromDocuments env (createItemSummary ts it) it s = (Inr (), s')
     \<and> documents s' = documents s @ [stored_of env ts (seq s) it] \<and> seq s' = Suc (seq s)
     \<and> collection_exists s' = collection_exists s \<and> vector_index s' = vector_index s
     \<and> marks (trace s') = marks (trace s)
     \<and> (\<exists>t. trace s' = trace s @ t \<and> list_all batch_event t
             \<and> (\<forall>ev \<in> set t. \<forall>m. ordinal ev = Some m \<longrightarrow> m = seq s))"
  using assms
  by (auto simp: fromDocuments_def store_error_def stored_of_def Let_def emit_def marks_def
      split: sum.splits option.splits)

lemma process_items_flat:
  "\<exists>s'. process_items env ts xs s = (outcome env ts (seq s) xs, s')
     \<and> documents s' = documents s @ stored_from env ts (seq s) (take (reached env ts (seq s) xs) xs)
     \<and> seq s' = seq s + attempts env ts (seq s) xs
     \<and> collection_exists s' = collection_exists s \<and> vector_index s' = vector_index s
     \<and> marks (trace s') = marks (trace s) @ saves (take (reached env ts (seq s) xs) xs)
     \<and> (\<exists>t. trace s' = trace s @ t \<and> list_all batch_event t
             \<and> (\<forall>ev \<in> set t. \<forall>m. ordinal ev = Some m \<longrightarrow> seq s \<le> m \<and> m < seq s'))"
proof (induction xs arbitrary: s)
  case Nil
  show ?case by (simp add: outcome_def reached_def attempts_def saves_def)
next
  case (Cons x xs)
  show ?case
  proof (cases "store_error env (seq s) (createItemSummary ts x)")
    case (Some e)
    from fromDocuments_fail [OF Some] show ?thesis
      using Some by (auto simp: outcome_def reached_def attempts_def saves_def)
  next
    case None
    from fromDocuments_ok [OF None] obtain s1 t1 where
      s1: "fromDocuments env (createItemSummary ts x) x s = (Inr (), s1)"
        "documents s1 = documents s @ [stored_of env ts (seq s) x]" "seq s1 = Suc (seq s)"
        "collection_exists s1 = collection_exists s" "vector_index s1 = vector_index s"
        "marks (trace s1) = marks (trace s)"
        "trace s1 = trace s @ t1" "list_all batch_event t1"
        "\<forall>ev \<in> set t1. \<forall>m. ordinal ev = Some m \<longrightarrow> m = seq s"
      by blast
    define s2 where "s2 = console (Saved (item_id x)) s1"
    have s2: "documents s2 = documents s1" "seq s2 = seq s1"
      "collection_exists s2 = collection_exists s1" "vector_index s2 = vector_index s1"
      "trace s2 = trace s1 @ [Console (Saved (item_id x))]"
      by (simp_all add: s2_def console_def emit_def)
    from Cons.IH [of s2] obtain s' t where
      s': "process_items env ts xs s2 = (outcome env ts (seq s2) xs, s')"
        "documents s' = documents s2 @ stored_from env ts (seq s2) (take (reached env ts (seq s2) xs) xs)"
        "seq s' = seq s2 + attempts env ts (seq s2) xs"
        "collection_exists s' = collection_exists s2" "vector_index s' = vector_index s2"
        "marks (trace s') = marks (trace s2) @ saves (take (reached env ts (seq s2) xs) xs)"
        "trace s' = trace s2 @ t" "list_all batch_event t"
        "\<forall>ev \<in> set t. \<forall>m. ordinal ev = Some m \<longrightarrow> seq s2 \<le> m \<and> m < seq s'"
      by blast
    have ff: "first_failure env ts (seq s) (x # xs) =
        map_option (\<lambda>(k, e). (Suc k, e)) (first_failure env ts (seq s2) xs)"
      using None s1 s2 by simp
    have o: "outcome env ts (seq s) (x # xs) = outcome env ts (seq s2) xs"
      and r: "reached env ts (seq s) (x # xs) = Suc (reached env ts (seq s2) xs)"
      and a: "attempts env ts (seq s) (x # xs) = Suc (attempts env ts (seq s2) xs)"
      unfolding outcome_def reached_def attempts_def ff
      by (cases "first_failure env ts (seq s2) xs"; auto)+
    have "process_items env ts (x # xs) s = (outcome env ts (seq s) (x # xs), s')"
      using s1 s' by (simp add: s2_def o)
    moreover have "documents s' = documents s @
        stored_from env ts (seq s) (take (reached env ts (seq s) (x # xs)) (x # xs))"
      using s1 s2 s' by (simp add: r)
    moreover have "seq s' = seq s + attempts env ts (seq s) (x # xs)"
      using s1 s2 s' by (simp add: a)
    moreover have "marks (trace s') = marks (trace s) @
        saves (take (reached env ts (seq s) (x # xs)) (x # xs))"
      using s1 s2 s' by (simp add: r marks_def saves_def)
    moreover have "trace s' = trace s @ (t1 @ [Console (Saved (item_id x))] @ t)"
      using s1 s2 s' by simp
    moreover have "list_all batch_event (t1 @ [Console (Saved (item_id x))] @ t)"
      using s1 s' by simp
    moreover have "\<forall>ev \<in> set (t1 @ [Console (Saved (item_id x))] @ t).
        \<forall>m. ordinal ev = Some m \<longrightarrow> seq s \<le> m \<and> m < seq s'"
      using s1 s2 s' by auto
    ultimately show ?thesis using s1 s2 s' by blast
  qed
qed


lemma first_failure_bound: "first_failure env ts n xs = Some (k, e) \<Longrightarrow> k < length xs"
  by (induction xs arbitrary: n k) (auto split: option.splits)

lemma first_failure_append:
  "first_failure env ts n (xs @ ys) =
     (case first_failure env ts n xs of
        Some r \<Rightarrow> Some r
      | None \<Rightarrow> map_option (\<lambda>(k, e). (length xs + k, e)) (first_failure env ts (n + length xs) ys))"
proof (induction xs arbitrary: n)
  case Nil
  show ?case by (simp add: option.map_ident case_prod_unfold)
next
  case (Cons x xs)
  show ?case
    by (cases "store_error env n (createItemSummary ts x)";
        cases "first_failure env ts (Suc n) xs";
        simp add: Cons.IH option.map_comp comp_def case_prod_unfold)
qed

lemma stored_from_append:
  "stored_from env ts n (xs @ ys) = stored_from env ts n xs @ stored_from env ts (n + length xs) ys"
  by (induction xs arbitrary: n) simp_all

lemma reached_le: "reached env ts n xs \<le> length xs"
  using first_failure_bound [of env ts n xs]
  by (auto simp: reached_def split: option.splits dest: less_imp_le)

lemma run_batches_flat:
  "\<exists>s'. run_batches env ts l b i bs s = (outcome env ts (seq s) (concat bs), s')
     \<and> documents s' = documents s @
          stored_from env ts (seq s) (take (reached env ts (seq s) (concat bs)) (concat bs))
     \<and> seq s' = seq s + attempts env ts (seq s) (concat bs)
     \<and> collection_exists s' = collection_exists s \<and> vector_index s' = vector_index s
     \<and> marks (trace s') = marks (trace s) @ progress env bs (reached env ts (seq s) (concat bs))
     \<and> (\<exists>t. trace s' = trace s @ t \<and> list_all batch_event t
             \<and> (\<forall>ev \<in> set t. \<forall>m. ordinal ev = Some m \<longrightarrow> seq s \<le> m \<and> m < seq s'))"
proof (induction bs arbitrary: i s)
  case Nil
  show ?case by (simp add: outcome_def reached_def attempts_def)
next
  case (Cons x bs)
  define s0 where "s0 = console (Processing_batch i b l) s"
  have s0: "documents s0 = documents s" "seq s0 = seq s"
    "collection_exists s0 = collection_exists s" "vector_index s0 = vector_index s"
    "trace s0 = trace s @ [Console (Processing_batch i b l)]"
    "marks (trace s0) = marks (trace s)"
    by (simp_all add: s0_def console_def emit_def marks_def)
  from process_items_flat [of env ts x s0] obtain s1 t1 where
    r1: "process_items env ts x s0 = (outcome env ts (seq s0) x, s1)"
      "documents s1 = documents s0 @ stored_from env ts (seq s0) (take (reached env ts (seq s0) x) x)"
      "seq s1 = seq s0 + attempts env ts (seq s0) x"
      "collection_exists s1 = collection_exists s0" "vector_index s1 = vector_index s0"
      "marks (trace s1) = marks (trace s0) @ saves (take (reached env ts (seq s0) x) x)"
      "trace s1 = trace s0 @ t1" "list_all batch_event t1"
      "\<forall>ev \<in> set t1. \<forall>m. ordinal ev = Some m \<longrightarrow> seq s0 \<le> m \<and> m < seq s1"
    by blast
  have s1: "process_items env ts x s0 = (outcome env ts (seq s) x, s1)"
      "documents s1 = documents s @ stored_from env ts (seq s) (take (reached env ts (seq s) x) x)"
      "seq s1 = seq s + attempts env ts (seq s) x"
      "collection_exists s1 = collection_exists s" "vector_index s1 = vector_index s"
      "marks (trace s1) = marks (trace s) @ saves (take (reached env ts (seq s) x) x)"
      "trace s1 = trace s0 @ t1" "list_all batch_event t1"
      "\<forall>ev \<in> set t1. \<forall>m. ordinal ev = Some m \<longrightarrow> seq s \<le> m \<and> m < seq s1"
    using r1 s0 by simp_all
  show ?case
  proof (cases "first_failure env ts (seq s) x")
    case (Some ke)
    obtain k e where ke: "ke = (k, e)" by (cases ke)
    have k: "k < length x" using Some ke first_failure_bound by blast
    have ff: "first_failure env ts (seq s) (x @ concat bs) = Some (k, e)"
      using Some ke by (simp add: first_failure_append)
    have out: "outcome env ts (seq s) x = Inl e" "reached env ts (seq s) x = k"
      "attempts env ts (seq s) x = Suc k"
      using Some ke by (simp_all add: outcome_def reached_def attempts_def)
    have outc: "outcome env ts (seq s) (x @ concat bs) = Inl e"
      "reached env ts (seq s) (x @ concat bs) = k"
      "attempts env ts (seq s) (x @ concat bs) = Suc k"
      unfolding outcome_def reached_def attempts_def ff by simp_all
    have "run_batches env ts l b i (x # bs) s = (outcome env ts (seq s) (x @ concat bs), s1)"
      using s1 out outc by (simp add: s0_def)
    moreover have "documents s1 = documents s @ stored_from env ts (seq s)
        (take (reached env ts (seq s) (x @ concat bs)) (x @ concat bs))"
      using s1 out outc k by simp
    moreover have "seq s1 = seq s + attempts env ts (seq s) (x @ concat bs)"
      using s1 out outc by simp
    moreover have "marks (trace s1) = marks (trace s) @
        progress env (x # bs) (reached env ts (seq s) (x @ concat bs))"
      using s1 out outc k by simp
    moreover have "trace s1 = trace s @ (Console (Processing_batch i b l) # t1)"
      using s1 s0 by simp
    moreover have "list_all batch_event (Console (Processing_batch i b l) # t1)"
      using s1 by simp
    moreover have "\<forall>ev \<in> set (Console (Processing_batch i b l) # t1).
        \<forall>m. ordinal ev = Some m \<longrightarrow> seq s \<le> m \<and> m < seq s1"
      using s1 by simp
    ultimately show ?thesis unfolding concat.simps using s1 by blast
  next
    case None
    define s2 where "s2 = emit (Pause 1000) (forceGC env s1)"
    have out: "outcome env ts (seq s) x = Inr ()" "reached env ts (seq s) x = length x"
      "attempts env ts (seq s) x = length x"
      using None by (simp_all add: outcome_def reached_def attempts_def)
    have s2: "documents s2 = documents s1" "seq s2 = seq s + length x"
      "collection_exists s2 = collection_exists s" "vector_index s2 = vector_index s"
      "trace s2 = trace s1 @ reclaim env @ [Pause 1000]"
      "marks (trace s2) = marks (trace s) @ batch_marks env x"
      using s1 out
      by (simp_all add: s2_def forceGC_def emit_def reclaim_def marks_def batch_marks_def)
    from Cons.IH [of "i + b" s2] obtain s' t where
      s': "run_batches env ts l b (i + b) bs s2 = (outcome env ts (seq s2) (concat bs), s')"
        "documents s' = documents s2 @
           stored_from env ts (seq s2) (take (reached env ts (seq s2) (concat bs)) (concat bs))"
        "seq s' = seq s2 + attempts env ts (seq s2) (concat bs)"
        "collection_exists s' = collection_exists s2" "vector_index s' = vector_index s2"
        "marks (trace s') = marks (trace s2) @ progress env bs (reached env ts (seq s2) (concat bs))"
        "trace s' = trace s2 @ t" "list_all batch_event t"
        "\<forall>ev \<in> set t. \<forall>m. ordinal ev = Some m \<longrightarrow> seq s2 \<le> m \<and> m < seq s'"
      by blast
    have ff: "first_failure env ts (seq s) (x @ concat bs) =
        map_option (\<lambda>(k, e). (length x + k, e)) (first_failure env ts (seq s2) (concat bs))"
      using None s2 by (simp add: first_failure_append)
    have o: "outcome env ts (seq s) (x @ concat bs) = outcome env ts (seq s2) (concat bs)"
      and r: "reached env ts (seq s) (x @ concat bs) =
                length x + reached env ts (seq s2) (concat bs)"
      and a: "attempts env ts (seq s) (x @ concat bs) =
                length x + attempts env ts (seq s2) (concat bs)"
      unfolding outcome_def reached_def attempts_def ff
      by (cases "first_failure env ts (seq s2) (concat bs)"; auto)+
    have "run_batches env ts l b i (x # bs) s = run_batches env ts l b (i + b) bs s2"
      using s1(1) out(1) by (simp add: s0_def s2_def)
    then have "run_batches env ts l b i (x # bs) s = (outcome env ts (seq s) (x @ concat bs), s')"
      by (simp only: s'(1) o)
    moreover have "documents s' = documents s @ stored_from env ts (seq s)
        (take (reached env ts (seq s) (x @ concat bs)) (x @ concat bs))"
      using s1 s2 s' out by (simp add: r stored_from_append)
    moreover have "seq s' = seq s + attempts env ts (seq s) (x @ concat bs)"
      using s2 s' by (simp add: a)
    moreover have "marks (trace s') = marks (trace s) @
        progress env (x # bs) (reached env ts (seq s) (x @ concat bs))"
      using s2 s' by (simp add: r)
    moreover have "trace s' = trace s @
        (Console (Processing_batch i b l) # t1 @ reclaim env @ [Pause 1000] @ t)"
      using s0 s1 s2 s' by simp
    moreover have "list_all batch_event
        (Console (Processing_batch i b l) # t1 @ reclaim env @ [Pause 1000] @ t)"
      using s1 s' by (simp add: reclaim_def)
    moreover have "\<forall>ev \<in> set (Console (Processing_batch i b l) # t1 @ reclaim env @ [Pause 1000] @ t).
        \<forall>m. ordinal ev = Some m \<longrightarrow> seq s \<le> m \<and> m < seq s'"
      using s1 s2 s' out by (auto simp: reclaim_def)
    ultimately show ?thesis unfolding concat.simps using s2 s' by blast
  qed
qed

lemma processBatch_flat:
  assumes "1 \<le> B"
  shows "\<exists>s'. processBatch env ts items B s = Some (outcome env ts (seq s) items, s')
     \<and> documents s' = documents s @
          stored_from env ts (seq s) (take (reached env ts (seq s) items) items)
     \<and> seq s' = seq s + attempts env ts (seq s) items
     \<and> collection_exists s' = collection_exists s \<and> vector_index s' = vector_index s
     \<and> marks (trace s') = marks (trace s) @
          progress env (chunks (nat B) items) (reached env ts (seq s) items)
     \<and> (\<exists>t. trace s' = trace s @ t \<and> list_all batch_event t
             \<and> (\<forall>ev \<in> set t. \<forall>m. ordinal ev = Some m \<longrightarrow> seq s \<le> m \<and> m < seq s'))"
proof -
  have c: "concat (chunks (nat B) items) = items"
    using assms by (simp add: concat_chunks)
  have "processBatch env ts items B s =
      Some (run_batches env ts (length items) B 0 (chunks (nat B) items) s)"
    using batch_loop_chunks [OF assms, of 0 env ts items s] by (simp add: processBatch_def)
  then show ?thesis
    using run_batches_flat [of env ts "length items" B 0 "chunks (nat B) items" s]
    unfolding c by simp
qed

section \<open>Runs of \<^verbatim>\<open>seedDatabase\<close>\<close>

lemmas setup_defs = seedDatabase_setup_def then_io_def call_def console_def emit_def
  setupDatabaseAndCollection_def createVectorSearchIndex_def generateSyntheticData_def

lemma setup_events:
  "seedDatabase_setup env s = (r, s') \<Longrightarrow> \<exists>t. trace s' = trace s @ t \<and> list_all setup_event t"
  by (auto simp: setup_defs split: option.splits sum.splits if_splits)

lemma setup_order:
  "seedDatabase_setup env s = (r, s') \<Longrightarrow> trace s = [] \<Longrightarrow>
     \<not> occurs_before (Ext Invoke) (Ext DeleteMany) (trace s') \<and>
     (Ext Invoke \<in> set (trace s') \<longrightarrow> occurs_before (Ext DeleteMany) (Ext Invoke) (trace s'))"
  by (auto simp: setup_defs split: option.splits sum.splits if_splits)

lemma setup_state:
  "seedDatabase_setup env s = (r, s') \<Longrightarrow>
     seq s' = seq s \<and> (\<forall>its. r = Inr its \<longrightarrow> documents s' = []) \<and>
     (documents s' = [] \<or> documents s' = documents s)"
  by (auto simp: setup_defs split: option.splits sum.splits if_splits)

lemma setup_result:
  "seedDatabase_setup env s = (Inr its, s') \<Longrightarrow>
     (\<exists>content. invoke_r env = Inr content \<and> parser_parse (json_of env) content = Inr its)"
  by (auto simp: setup_defs split: option.splits sum.splits if_splits)

lemma seedDatabase_setup_failed:
  assumes "seedDatabase_setup env s = (Inl e, s1)"
  shows "seedDatabase_try env ts s = Some (Inl e, s1)"
    and "seedDatabase env ts s =
      Some (close_result env, emit (Ext Close) (console (Seeding_error e) s1))"
  using assms
  by (simp_all add: seedDatabase_def seedDatabase_try_def call_def close_result_def)

lemma seedDatabase_setup_ok:
  assumes "seedDatabase_setup env s = (Inr items, s1)"
  shows "\<exists>s2. processBatch env ts items 3 (console (Generated (length items)) s1) =
            Some (outcome env ts (seq s1) items, s2)
     \<and> seedDatabase_try env ts s =
         Some (case outcome env ts (seq s1) items of
                 Inl e \<Rightarrow> (Inl e, s2) | Inr u \<Rightarrow> (Inr (), console Completed s2))
     \<and> seedDatabase env ts s =
         Some (close_result env,
               emit (Ext Close)
                 (case outcome env ts (seq s1) items of
                    Inl e \<Rightarrow> console (Seeding_error e) s2
                  | Inr u \<Rightarrow> console Completed s2))
     \<and> documents s2 = documents s1 @
          stored_from env ts (seq s1) (take (reached env ts (seq s1) items) items)
     \<and> seq s2 = seq s1 + attempts env ts (seq s1) items
     \<and> collection_exists s2 = collection_exists s1 \<and> vector_index s2 = vector_index s1
     \<and> (\<exists>t. trace s2 = trace s1 @ Console (Generated (length items)) # t
             \<and> list_all batch_event t
             \<and> (\<forall>ev \<in> set t. \<forall>m. ordinal ev = Some m \<longrightarrow> seq s1 \<le> m \<and> m < seq s2))"
proof -
  define s1' where "s1' = console (Generated (length items)) s1"
  have s1': "documents s1' = documents s1" "seq s1' = seq s1"
    "collection_exists s1' = collection_exists s1" "vector_index s1' = vector_index s1"
    "trace s1' = trace s1 @ [Console (Generated (length items))]"
    by (simp_all add: s1'_def console_def emit_def)
  from processBatch_flat [of 3 env ts items s1'] obtain s2 t where
    s2: "processBatch env ts items 3 s1' = Some (outcome env ts (seq s1') items, s2)"
      "documents s2 = documents s1' @
          stored_from env ts (seq s1') (take (reached env ts (seq s1') items) items)"
      "seq s2 = seq s1' + attempts env ts (seq s1') items"
      "collection_exists s2 = collection_exists s1'" "vector_index s2 = vector_index s1'"
      "trace s2 = trace s1' @ t" "list_all batch_event t"
      "\<forall>ev \<in> set t. \<forall>m. ordinal ev = Some m \<longrightarrow> seq s1' \<le> m \<and> m < seq s2"
    by auto
  have a: "processBatch env ts items 3 (console (Generated (length items)) s1) =
            Some (outcome env ts (seq s1) items, s2)"
    using s2(1) s1' by (simp add: s1'_def)
  have b: "seedDatabase_try env ts s =
         Some (case outcome env ts (seq s1) items of
                 Inl e \<Rightarrow> (Inl e, s2) | Inr u \<Rightarrow> (Inr (), console Completed s2))"
    using assms a by (simp add: seedDatabase_try_def split: sum.splits)
  have c: "seedDatabase env ts s =
         Some (close_result env,
               emit (Ext Close)
                 (case outcome env ts (seq s1) items of
                    Inl e \<Rightarrow> console (Seeding_error e) s2
                  | Inr u \<Rightarrow> console Completed s2))"
    unfolding seedDatabase_def b
    by (simp add: call_def close_result_def split: sum.splits)
  have d: "trace s2 = trace s1 @ Console (Generated (length items)) # t"
    using s2 s1' by simp
  show ?thesis
    using a b c d s2 s1' by (intro exI [of _ s2]) auto
qed


lemma occurs_before_mem: "occurs_before a b xs \<Longrightarrow> b \<in> set xs"
  by (induction xs) (auto split: if_splits)

lemma occurs_before_append:
  "b \<notin> set ys \<Longrightarrow> occurs_before a b (xs @ ys) = occurs_before a b xs"
  by (induction xs) (auto dest: occurs_before_mem)

lemma order_preserved:
  assumes "Ext Invoke \<notin> set ys" "Ext DeleteMany \<notin> set ys"
    and "\<not> occurs_before (Ext Invoke) (Ext DeleteMany) xs"
    and "Ext Invoke \<in> set xs \<longrightarrow> occurs_before (Ext DeleteMany) (Ext Invoke) xs"
  shows "\<not> occurs_before (Ext Invoke) (Ext DeleteMany) (xs @ ys) \<and>
     (Ext Invoke \<in> set (xs @ ys) \<longrightarrow> occurs_before (Ext DeleteMany) (Ext Invoke) (xs @ ys))"
  using assms by (simp add: occurs_before_append)

lemma batch_events_others:
  "list_all batch_event t \<Longrightarrow>
     Ext Invoke \<notin> set t \<and> Ext DeleteMany \<notin> set t \<and> Ext Close \<notin> set t"
  by (auto simp: list_all_iff)

lemma setup_events_others:
  "list_all setup_event t \<Longrightarrow>
     Ext Close \<notin> set t \<and> (\<forall>ev \<in> set t. ordinal ev = None)"
proof (intro conjI ballI)
  assume a: "list_all setup_event t"
  then show "Ext Close \<notin> set t" by (auto simp: list_all_iff)
  fix ev assume "ev \<in> set t"
  with a have "setup_event ev" by (simp add: list_all_iff)
  then show "ordinal ev = None" by (cases ev rule: ordinal.cases) auto
qed

text \<open>
  C5, as the code has it. In every run the collection is cleared before the records are
  generated: the request to the chat model is never followed by the deletion, and a run
  that makes the request has made the deletion before.
\<close>

theorem clear_before_generate:
  assumes "trace s = []"
  shows "\<exists>r s'. seedDatabase env ts s = Some (r, s')
     \<and> \<not> occurs_before (Ext Invoke) (Ext DeleteMany) (trace s')
     \<and> (Ext Invoke \<in> set (trace s') \<longrightarrow> occurs_before (Ext DeleteMany) (Ext Invoke) (trace s'))"
proof -
  obtain r0 s1 where st0: "seedDatabase_setup env s = (r0, s1)"
    by (cases "seedDatabase_setup env s")
  from setup_order [OF st0 assms] have
    o: "\<not> occurs_before (Ext Invoke) (Ext DeleteMany) (trace s1)"
      "Ext Invoke \<in> set (trace s1) \<longrightarrow> occurs_before (Ext DeleteMany) (Ext Invoke) (trace s1)"
    by simp_all
  have "\<exists>r s' ys. seedDatabase env ts s = Some (r, s') \<and> trace s' = trace s1 @ ys
      \<and> Ext Invoke \<notin> set ys \<and> Ext DeleteMany \<notin> set ys"
  proof (cases r0)
    case (Inl e)
    from seedDatabase_setup_failed(2) [OF st0 [unfolded Inl], of ts] show ?thesis
      by (simp add: emit_def console_def)
  next
    case (Inr items)
    from seedDatabase_setup_ok [OF st0 [unfolded Inr], of ts] obtain s2 t where
      run: "seedDatabase env ts s =
         Some (close_result env,
               emit (Ext Close)
                 (case outcome env ts (seq s1) items of
                    Inl e \<Rightarrow> console (Seeding_error e) s2
                  | Inr u \<Rightarrow> console Completed s2))"
      and t: "trace s2 = trace s1 @ Console (Generated (length items)) # t"
        "list_all batch_event t"
      by blast
    from batch_events_others [OF t(2)] show ?thesis
      unfolding run
      by (cases "outcome env ts (seq s1) items") (simp_all add: emit_def console_def t(1))
  qed
  then obtain r s' ys where "seedDatabase env ts s = Some (r, s')" "trace s' = trace s1 @ ys"
    "Ext Invoke \<notin> set ys" "Ext DeleteMany \<notin> set ys" by blast
  with order_preserved [OF this(3,4) o] show ?thesis by simp
qed

theorem clear_before_generate_witness:
  "trace world0 = [] \<and>
   (\<exists>r s'. seedDatabase env_one render0 world0 = Some (r, s')
      \<and> \<not> occurs_before (Ext Invoke) (Ext DeleteMany) (trace s')
      \<and> (Ext Invoke \<in> set (trace s') \<longrightarrow>
            occurs_before (Ext DeleteMany) (Ext Invoke) (trace s')))"
  using clear_before_generate [of world0 env_one render0] by (simp add: world0_def)

text \<open>C5 as stated fails: in the run on a response of one valid record the deletion comes
  first and the request to the chat model after it.\<close>

theorem generate_after_clear:
  "seedDatabase env_one render0 world0 \<noteq> None \<and>
   occurs_before (Ext DeleteMany) (Ext Invoke)
     (trace (snd (the (seedDatabase env_one render0 world0)))) \<and>
   \<not> occurs_before (Ext Invoke) (Ext DeleteMany)
     (trace (snd (the (seedDatabase env_one render0 world0))))"
  by code_simp

text \<open>
  C9. Every run of \<^verbatim>\<open>seedDatabase\<close> returns, calls \<^verbatim>\<open>client.close()\<close> exactly once, as
  its last action, and returns what that call returns: an error of the \<^verbatim>\<open>try\<close> block is
  logged and not raised again.
\<close>

theorem seedDatabase_closes_once:
  "\<exists>r s'. seedDatabase env ts s = Some (r, s')
     \<and> count_list (trace s') (Ext Close) = Suc (count_list (trace s) (Ext Close))
     \<and> last (trace s') = Ext Close
     \<and> r = (case close_r env of None \<Rightarrow> Inr () | Some e \<Rightarrow> Inl e)
     \<and> (\<forall>e s1. seedDatabase_try env ts s = Some (Inl e, s1) \<longrightarrow>
           Console (Seeding_error e) \<in> set (trace s'))"
proof -
  obtain r0 s1 where st0: "seedDatabase_setup env s = (r0, s1)"
    by (cases "seedDatabase_setup env s")
  from setup_events [OF st0] obtain t1 where
    t1: "trace s1 = trace s @ t1" "list_all setup_event t1" by blast
  then have c1: "count_list t1 (Ext Close) = 0"
    using setup_events_others [of t1] by (simp add: count_list_0_iff)
  show ?thesis
  proof (cases r0)
    case (Inl e)
    from seedDatabase_setup_failed [OF st0 [unfolded Inl], of ts] t1 c1 show ?thesis
      by (auto simp: emit_def console_def close_result_def)
  next
    case (Inr items)
    from seedDatabase_setup_ok [OF st0 [unfolded Inr], of ts] obtain s2 t where
      run: "seedDatabase env ts s =
         Some (close_result env,
               emit (Ext Close)
                 (case outcome env ts (seq s1) items of
                    Inl e \<Rightarrow> console (Seeding_error e) s2
                  | Inr u \<Rightarrow> console Completed s2))"
      and tried: "seedDatabase_try env ts s =
         Some (case outcome env ts (seq s1) items of
                 Inl e \<Rightarrow> (Inl e, s2) | Inr u \<Rightarrow> (Inr (), console Completed s2))"
      and t: "trace s2 = trace s1 @ Console (Generated (length items)) # t"
        "list_all batch_event t"
      by blast
    have c2: "count_list t (Ext Close) = 0"
      using batch_events_others [OF t(2)] by (simp add: count_list_0_iff)
    show ?thesis
      unfolding run tried
      using t1 c1 c2
      by (cases "outcome env ts (seq s1) items")
        (auto simp: emit_def console_def t(1) close_result_def)
  qed
qed

theorem seedDatabase_closes_once_witness:
  "seedDatabase_try env_down render0 world0 =
     Some (Inl (Rejected ''down''), snd (the (seedDatabase_try env_down render0 world0))) \<and>
   (\<exists>r s'. seedDatabase env_down render0 world0 = Some (r, s')
      \<and> count_list (trace s') (Ext Close) = 1 \<and> last (trace s') = Ext Close \<and> r = Inr ()
      \<and> Console (Seeding_error (Rejected ''down'')) \<in> set (trace s'))"
proof -
  have a: "seedDatabase_try env_down render0 world0 =
     Some (Inl (Rejected ''down''), snd (the (seedDatabase_try env_down render0 world0)))"
    by (simp add: seedDatabase_try_def setup_defs env_down_def env_ok_def)
  have b: "close_r env_down = None" "trace world0 = []"
    by (simp_all add: env_down_def env_ok_def world0_def)
  from seedDatabase_closes_once [of env_down render0 world0] a b show ?thesis
    by auto
qed

section \<open>Reclamation and pause between batches\<close>

lemma progress_all: "progress env bs (length (concat bs)) = concat (map (batch_marks env) bs)"
  by (induction bs) simp_all

lemma progress_fail:
  "d < length (concat bs) \<Longrightarrow>
     \<exists>pre b post j. bs = pre @ b # post \<and> j < length b \<and> d = length (concat pre) + j \<and>
       progress env bs d = concat (map (batch_marks env) pre) @ saves (take j b)"
proof (induction bs arbitrary: d)
  case Nil
  then show ?case by simp
next
  case (Cons x bs)
  show ?case
  proof (cases "length x \<le> d")
    case True
    with Cons.prems have "d - length x < length (concat bs)" by simp
    from Cons.IH [OF this] obtain pre b post j where
      h: "bs = pre @ b # post" "j < length b" "d - length x = length (concat pre) + j"
        "progress env bs (d - length x) = concat (map (batch_marks env) pre) @ saves (take j b)"
      by blast
    have "x # bs = (x # pre) @ b # post" using h by simp
    moreover have "d = length (concat (x # pre)) + j" using h True by simp
    moreover have "progress env (x # bs) d =
        concat (map (batch_marks env) (x # pre)) @ saves (take j b)"
      using h True by simp
    ultimately show ?thesis using h(2) by blast
  next
    case False
    then have "x # bs = [] @ x # bs" "d < length x" "d = length (concat ([] :: item list list)) + d"
      "progress env (x # bs) d = concat (map (batch_marks env) []) @ saves (take d x)"
      by simp_all
    then show ?thesis by blast
  qed
qed

lemma length_stored_from [simp]: "length (stored_from env ts n xs) = length xs"
  by (induction xs arbitrary: n) simp_all

text \<open>
  C4, as the code has it. After a batch all of whose records were saved, the pipeline
  requests memory reclamation (nothing when the runtime has none) and then pauses for
  1000 ms, on no other condition: in a run that succeeds every batch is followed by
  both. A record that fails ends the loop at once: the batches before the failing one
  are followed by reclamation and pause, the failing batch by neither.
\<close>

theorem pause_after_completed_batch:
  assumes "1 \<le> B" and "processBatch env ts items B s = Some (r, s')"
    and "batches items B 0 = Some bs"
  shows "(r = Inr () \<longrightarrow>
            marks (trace s') = marks (trace s) @ concat (map (batch_marks env) bs)) \<and>
         (\<forall>e. r = Inl e \<longrightarrow>
            (\<exists>pre b post j. bs = pre @ b # post \<and> j < length b \<and>
               length (documents s') = length (documents s) + length (concat pre) + j \<and>
               marks (trace s') =
                 marks (trace s) @ concat (map (batch_marks env) pre) @ saves (take j b)))"
proof -
  have bs: "bs = chunks (nat B) items"
    using batches_chunks [OF assms(1), of 0 items] assms(3) by simp
  have c: "concat bs = items" using assms(1) by (simp add: bs concat_chunks)
  define d where "d = reached env ts (seq s) items"
  from processBatch_flat [OF assms(1), of env ts items s] assms(2) have
    r: "r = outcome env ts (seq s) items"
    and docs: "documents s' = documents s @ stored_from env ts (seq s) (take d items)"
    and m: "marks (trace s') = marks (trace s) @ progress env bs d"
    by (auto simp: bs d_def)
  have len: "length (documents s') = length (documents s) + d"
    using reached_le [of env ts "seq s" items] by (simp add: docs d_def)
  show ?thesis
  proof (intro conjI impI allI)
    assume "r = Inr ()"
    then have "d = length (concat bs)"
      unfolding r c d_def outcome_def reached_def by (auto split: option.splits prod.splits)
    then show "marks (trace s') = marks (trace s) @ concat (map (batch_marks env) bs)"
      using m by (simp add: progress_all)
  next
    fix e assume "r = Inl e"
    then obtain k where "first_failure env ts (seq s) items = Some (k, e)"
      unfolding r outcome_def by (auto split: option.splits)
    then have "d < length (concat bs)"
      unfolding c d_def reached_def using first_failure_bound by fastforce
    from progress_fail [OF this, of env] len m
    show "\<exists>pre b post j. bs = pre @ b # post \<and> j < length b \<and>
               length (documents s') = length (documents s) + length (concat pre) + j \<and>
               marks (trace s') =
                 marks (trace s) @ concat (map (batch_marks env) pre) @ saves (take j b)"
      by auto
  qed
qed


theorem pause_after_completed_batch_witness:
  "(1::int) \<le> 2 \<and>
   processBatch env_ok render0 [item0, item_neg, item0] 2 world0 =
     Some (Inr (), snd (the (processBatch env_ok render0 [item0, item_neg, item0] 2 world0))) \<and>
   batches [item0, item_neg, item0] 2 0 = Some [[item0, item_neg], [item0]] \<and>
   marks (trace (snd (the (processBatch env_ok render0 [item0, item_neg, item0] 2 world0)))) =
     marks (trace world0) @ concat (map (batch_marks env_ok) [[item0, item_neg], [item0]]) \<and>
   processBatch env_third render0 [item0, item_neg, item0] 2 world0 =
     Some (Inl (Rejected ''quota''),
           snd (the (processBatch env_third render0 [item0, item_neg, item0] 2 world0))) \<and>
   (\<exists>pre b post j. [[item0, item_neg], [item0]] = pre @ b # post \<and> j < length b \<and>
      length (documents (snd (the (processBatch env_third render0 [item0, item_neg, item0] 2 world0))))
        = length (documents world0) + length (concat pre) + j \<and>
      marks (trace (snd (the (processBatch env_third render0 [item0, item_neg, item0] 2 world0)))) =
        marks (trace world0) @ concat (map (batch_marks env_third) pre) @ saves (take j b))"
proof -
  have a: "processBatch env_ok render0 [item0, item_neg, item0] 2 world0 =
     Some (Inr (), snd (the (processBatch env_ok render0 [item0, item_neg, item0] 2 world0)))"
    by code_simp
  have b: "batches [item0, item_neg, item0] 2 0 = Some [[item0, item_neg], [item0]]"
    by code_simp
  have c: "processBatch env_third render0 [item0, item_neg, item0] 2 world0 =
     Some (Inl (Rejected ''quota''),
           snd (the (processBatch env_third render0 [item0, item_neg, item0] 2 world0)))"
    by code_simp
  have d: "(1::int) \<le> 2" by simp
  from pause_after_completed_batch [OF d a b] pause_after_completed_batch [OF d c b] a b c
  show ?thesis by simp
qed

text \<open>C4 as stated fails: a batch of one record whose embedding is rejected is followed by
  no reclamation and no pause, although the runtime offers reclamation.\<close>

theorem no_pause_after_failed_batch:
  "processBatch env_reject render0 [item0] 3 world0 \<noteq> None \<and>
   fst (the (processBatch env_reject render0 [item0] 3 world0)) = Inl (Rejected ''quota'') \<and>
   Pause 1000 \<notin> set (trace (snd (the (processBatch env_reject render0 [item0] 3 world0)))) \<and>
   GC \<notin> set (trace (snd (the (processBatch env_reject render0 [item0] 3 world0))))"
  by code_simp

section \<open>Failure of a record\<close>

lemma first_failure_intro:
  "k < length xs \<Longrightarrow>
   \<forall>j<k. store_error env (n + j) (createItemSummary ts (xs ! j)) = None \<Longrightarrow>
   store_error env (n + k) (createItemSummary ts (xs ! k)) = Some e \<Longrightarrow>
   first_failure env ts n xs = Some (k, e)"
proof (induction xs arbitrary: n k)
  case Nil
  then show ?case by simp
next
  case (Cons x xs)
  show ?case
  proof (cases k)
    case 0
    with Cons.prems show ?thesis by simp
  next
    case (Suc k')
    have "store_error env n (createItemSummary ts x) = None"
      using Cons.prems(2) Suc by (auto dest: spec [of _ 0])
    moreover have "first_failure env ts (Suc n) xs = Some (k', e)"
    proof (rule Cons.IH)
      show "k' < length xs" using Cons.prems(1) Suc by simp
      show "\<forall>j<k'. store_error env (Suc n + j) (createItemSummary ts (xs ! j)) = None"
        using Cons.prems(2) Suc by (auto dest: spec [of _ "Suc _"])
      show "store_error env (Suc n + k') (createItemSummary ts (xs ! k')) = Some e"
        using Cons.prems(3) Suc by simp
    qed
    ultimately show ?thesis using Suc by simp
  qed
qed

lemma stored_from_map:
  "stored_from env ts n xs = map (\<lambda>j. stored_of env ts (n + j) (xs ! j)) [0..<length xs]"
proof (induction xs arbitrary: n)
  case Nil
  show ?case by simp
next
  case (Cons x xs)
  have "[0..<length (x # xs)] = 0 # map Suc [0..<length xs]"
    by (simp add: upt_conv_Cons map_Suc_upt del: upt_Suc)
  then show ?case by (simp add: Cons.IH comp_def del: upt_Suc)
qed

lemma stored_from_take:
  "k \<le> length xs \<Longrightarrow>
     stored_from env ts 0 (take k xs) = map (\<lambda>j. stored_of env ts j (xs ! j)) [0..<k]"
  by (simp add: stored_from_map min_def)


text \<open>
  C2. When generation has produced the records and the embedding or the insertion of
  the record at position \<open>k\<close> is the first to be rejected, with error \<open>e\<close>: the run
  returns; the error leaves \<^verbatim>\<open>processBatch\<close> and the \<^verbatim>\<open>try\<close> block; the collection holds
  exactly the documents of the \<open>k\<close> records before it, then and at the end of the run;
  no call of \<^verbatim>\<open>fromDocuments\<close> is made for a record after position \<open>k\<close> (each summary is
  computed for the call that embeds it); and the run logs the error and not completion.
\<close>

theorem failure_propagation:
  assumes "fst (seedDatabase_setup env s) = Inr items" and "trace s = []" and "seq s = 0"
    and "k < length items"
    and "\<forall>j<k. store_error env j (createItemSummary ts (items ! j)) = None"
    and "store_error env k (createItemSummary ts (items ! k)) = Some e"
  shows "\<exists>r s' s2. seedDatabase env ts s = Some (r, s')
     \<and> seedDatabase_try env ts s = Some (Inl e, s2)
     \<and> documents s2 = map (\<lambda>j. stored_of env ts j (items ! j)) [0..<k]
     \<and> documents s' = documents s2
     \<and> (\<forall>ev \<in> set (trace s'). \<forall>m. ordinal ev = Some m \<longrightarrow> m \<le> k)
     \<and> Console (Seeding_error e) \<in> set (trace s')
     \<and> Console Completed \<notin> set (trace s')"
proof -
  obtain s1 where st0: "seedDatabase_setup env s = (Inr items, s1)"
    using assms(1) by (cases "seedDatabase_setup env s") auto
  from setup_state [OF st0] assms(3) have s1: "seq s1 = 0" "documents s1 = []" by simp_all
  from setup_events [OF st0] assms(2) obtain t1 where
    t1: "trace s1 = t1" "list_all setup_event t1" by auto
  have ff: "first_failure env ts 0 items = Some (k, e)"
    using assms(4-6) by (intro first_failure_intro) simp_all
  then have out: "outcome env ts 0 items = Inl e" "reached env ts 0 items = k"
    "attempts env ts 0 items = Suc k"
    by (simp_all add: outcome_def reached_def attempts_def)
  from seedDatabase_setup_ok [OF st0, of ts] obtain s2 t where
    run: "seedDatabase env ts s =
        Some (close_result env, emit (Ext Close) (console (Seeding_error e) s2))"
    and tried: "seedDatabase_try env ts s = Some (Inl e, s2)"
    and docs: "documents s2 = stored_from env ts 0 (take k items)"
    and sq: "seq s2 = Suc k"
    and t: "trace s2 = t1 @ Console (Generated (length items)) # t" "list_all batch_event t"
      "\<forall>ev \<in> set t. \<forall>m. ordinal ev = Some m \<longrightarrow> m < Suc k"
    unfolding s1 out t1 by auto
  define s' where "s' = emit (Ext Close) (console (Seeding_error e) s2)"
  have tr: "trace s' = t1 @ Console (Generated (length items)) # t @
      [Console (Seeding_error e), Ext Close]"
    by (simp add: s'_def emit_def console_def t(1))
  have "documents s2 = map (\<lambda>j. stored_of env ts j (items ! j)) [0..<k]"
    using assms(4) by (simp add: docs stored_from_take)
  moreover have "documents s' = documents s2"
    by (simp add: s'_def emit_def console_def)
  moreover have "\<forall>ev \<in> set (trace s'). \<forall>m. ordinal ev = Some m \<longrightarrow> m \<le> k"
    using setup_events_others [OF t1(2)] t(3) unfolding tr by auto
  moreover have "Console (Seeding_error e) \<in> set (trace s')"
    unfolding tr by simp
  moreover have "Console Completed \<notin> set (trace s')"
    using t1(2) t(2) unfolding tr by (auto simp: list_all_iff)
  ultimately show ?thesis using run tried unfolding s'_def by blast
qed

theorem failure_propagation_witness:
  "fst (seedDatabase_setup env_second world0) = Inr [item0, item_neg, item0] \<and>
   trace world0 = [] \<and> seq world0 = 0 \<and> (1::nat) < length [item0, item_neg, item0] \<and>
   store_error env_second 0 (createItemSummary render0 ([item0, item_neg, item0] ! 0)) = None \<and>
   store_error env_second 1 (createItemSummary render0 ([item0, item_neg, item0] ! 1)) =
     Some (Rejected ''write'') \<and>
   (\<exists>r s' s2. seedDatabase env_second render0 world0 = Some (r, s')
      \<and> seedDatabase_try env_second render0 world0 = Some (Inl (Rejected ''write''), s2)
      \<and> documents s2 = [stored_of env_second render0 0 item0]
      \<and> documents s' = documents s2
      \<and> (\<forall>ev \<in> set (trace s'). \<forall>m. ordinal ev = Some m \<longrightarrow> m \<le> 1)
      \<and> Console (Seeding_error (Rejected ''write'')) \<in> set (trace s')
      \<and> Console Completed \<notin> set (trace s'))"
proof -
  have a: "fst (seedDatabase_setup env_second world0) = Inr [item0, item_neg, item0]"
    by (simp add: setup_defs env_second_def env_ok_def world0_def parser_parse_def
        itemSchema_json cand_neg_accepted)
  have b: "trace world0 = []" "seq world0 = 0" by (simp_all add: world0_def)
  have c: "(1::nat) < length [item0, item_neg, item0]" by simp
  have d: "\<forall>j<1. store_error env_second j
             (createItemSummary render0 ([item0, item_neg, item0] ! j)) = None"
    by (simp add: store_error_def env_second_def env_ok_def)
  have e: "store_error env_second 1 (createItemSummary render0 ([item0, item_neg, item0] ! 1)) =
     Some (Rejected ''write'')"
    by (simp add: store_error_def env_second_def env_ok_def)
  have d0: "store_error env_second 0 (createItemSummary render0 ([item0, item_neg, item0] ! 0))
      = None"
    using d by simp
  from failure_propagation [OF a b c d e] a b c d0 e show ?thesis by simp
qed

section \<open>Failure of index provisioning\<close>

lemma store_error_index_ok [simp]:
  "store_error (index_ok env) n t = store_error env n t"
  by (simp add: store_error_def index_ok_def split: sum.splits)

lemma stored_of_index_ok [simp]:
  "stored_of (index_ok env) ts n x = stored_of env ts n x"
  by (simp add: stored_of_def index_ok_def split: sum.splits)

lemma first_failure_index_ok [simp]:
  "first_failure (index_ok env) ts n xs = first_failure env ts n xs"
  by (induction xs arbitrary: n) (simp_all split: option.splits)










section \<open>What the schema checks of the prices\<close>

lemma no_document_from_rejected:
  assumes "isl (itemSchema cand)" and "invoke_r env = Inr content"
    and "json_of env content = Some (JArr js)" and "cand \<in> set js" and "trace s = []"
  shows "\<exists>r s'. seedDatabase env ts s = Some (r, s') \<and> (\<forall>n. Ext (Insert n) \<notin> set (trace s'))"
proof -
  obtain r0 s1 where st0: "seedDatabase_setup env s = (r0, s1)"
    by (cases "seedDatabase_setup env s")
  from setup_events [OF st0] assms(5) obtain t1 where
    t1: "trace s1 = t1" "list_all setup_event t1" by auto
  have bad: "isl (z_elems itemSchema js)"
    using assms(1,4) by (intro z_elems_Inl) auto
  show ?thesis
  proof (cases r0)
    case (Inl e)
    from seedDatabase_setup_failed(2) [OF st0 [unfolded Inl], of ts] t1 show ?thesis
      by (auto simp: emit_def console_def list_all_iff)
  next
    case (Inr its)
    from setup_result [OF st0 [unfolded Inr]] assms(2,3) bad have False
      by (auto simp: parser_parse_def split: sum.splits)
    then show ?thesis ..
  qed
qed

text \<open>
  C6, as the code has it. The schema checks that \<^verbatim>\<open>full_price\<close> and \<^verbatim>\<open>sale_price\<close> are
  numbers and nothing more. A candidate in which one of them is missing or is not a
  number is rejected, and a run whose generation response holds such a candidate inserts
  no document at all. The sign is not checked: the candidate made of the fields of any
  record, negative prices included, is accepted as that record.
\<close>

theorem itemSchema_price_check:
  "(\<not> is_number (price_member cand ''full_price'') \<or>
    \<not> is_number (price_member cand ''sale_price'') \<longrightarrow>
      isl (itemSchema cand) \<and>
      (invoke_r env = Inr content \<longrightarrow> json_of env content = Some (JArr js) \<longrightarrow>
         cand \<in> set js \<longrightarrow> trace s = [] \<longrightarrow>
         (\<exists>r s'. seedDatabase env ts s = Some (r, s') \<and>
            (\<forall>n. Ext (Insert n) \<notin> set (trace s'))))) \<and>
   itemSchema (item_json it) = Inr it"
  using itemSchema_price_not_number [of cand]
    no_document_from_rejected [of cand env content js s ts] itemSchema_json [of it]
  by blast

theorem itemSchema_price_check_witness:
  "\<not> is_number (price_member cand_no_price ''full_price'') \<and>
   isl (itemSchema cand_no_price) \<and>
   invoke_r env_bad = Inr ''[]'' \<and>
   json_of env_bad ''[]'' = Some (JArr [item_json item0, cand_no_price]) \<and>
   cand_no_price \<in> set [item_json item0, cand_no_price] \<and> trace world0 = [] \<and>
   (\<exists>r s'. seedDatabase env_bad render0 world0 = Some (r, s') \<and>
      (\<forall>n. Ext (Insert n) \<notin> set (trace s'))) \<and>
   itemSchema (item_json item_neg) = Inr item_neg"
proof -
  have a: "\<not> is_number (price_member cand_no_price ''full_price'')"
    by (simp add: price_member_def cand_no_price_def)
  have b: "invoke_r env_bad = Inr ''[]''"
    "json_of env_bad ''[]'' = Some (JArr [item_json item0, cand_no_price])"
    "trace world0 = []"
    by (simp_all add: env_bad_def env_ok_def world0_def)
  from itemSchema_price_check
    [of cand_no_price env_bad "''[]''" "[item_json item0, cand_no_price]" world0 render0 item_neg]
    a b
  show ?thesis by simp
qed

text \<open>C6 as stated fails: a candidate whose full price is \<open>-5\<close> is accepted, and the run
  on a response holding it stores a document for it.\<close>

theorem negative_price_accepted:
  "full_price (prices item_neg) < 0 \<and> itemSchema cand_neg = Inr item_neg \<and>
   seedDatabase env_neg render0 world0 \<noteq> None \<and>
   map metadata (documents (snd (the (seedDatabase env_neg render0 world0)))) = [item_neg]"
proof -
  have "full_price (prices item_neg) < 0" by (simp add: item_neg_def)
  moreover have "seedDatabase env_neg render0 world0 \<noteq> None \<and>
    map metadata (documents (snd (the (seedDatabase env_neg render0 world0)))) = [item_neg]"
    by code_simp
  ultimately show ?thesis using cand_neg_accepted by simp
qed

end
